theory Spec2Isabelle
  imports Complex_Main "HOL-Library.Sublist"
begin

section \<open>Compression level range (bindings/c++/compression_level-c++.cpp)\<close>

text \<open>
  The four fields of \<^verbatim>\<open>struct sail_compression_level\<close> are C doubles. A double is
  modelled by the value it denotes: a finite real, one of the two infinities, or a NaN.
  The comparisons are those of IEEE 754: every comparison with a NaN is false.
\<close>

datatype double = Finite real | PlusInf | MinusInf | NaN

fun double_less :: "double \<Rightarrow> double \<Rightarrow> bool" where
  "double_less NaN _ = False"
| "double_less _ NaN = False"
| "double_less (Finite x) (Finite y) = (x < y)"
| "double_less (Finite x) PlusInf = True"
| "double_less (Finite x) MinusInf = False"
| "double_less PlusInf _ = False"
| "double_less MinusInf MinusInf = False"
| "double_less MinusInf _ = True"

fun double_less_eq :: "double \<Rightarrow> double \<Rightarrow> bool" where
  "double_less_eq NaN _ = False"
| "double_less_eq _ NaN = False"
| "double_less_eq (Finite x) (Finite y) = (x \<le> y)"
| "double_less_eq (Finite x) PlusInf = True"
| "double_less_eq (Finite x) MinusInf = False"
| "double_less_eq PlusInf PlusInf = True"
| "double_less_eq PlusInf _ = False"
| "double_less_eq MinusInf _ = True"

record sail_compression_level =
  level_min :: double
  level_max :: double
  level_default :: double
  level_step :: double

text \<open>
  \<^verbatim>\<open>compression_level::is_valid\<close>: the source writes \<^verbatim>\<open>level_default >= level_min\<close>,
  that is \<^verbatim>\<open>level_min <= level_default\<close> with the operands swapped.
\<close>

definition is_valid :: "sail_compression_level \<Rightarrow> bool" where
  "is_valid d \<longleftrightarrow>
     double_less (level_min d) (level_max d) \<and>
     double_less_eq (level_min d) (level_default d) \<and>
     double_less_eq (level_default d) (level_max d)"

text \<open>The range with the four given finite levels.\<close>

definition compression_level :: "real \<Rightarrow> real \<Rightarrow> real \<Rightarrow> real \<Rightarrow> sail_compression_level" where
  "compression_level lo hi dflt stp =
     \<lparr>level_min = Finite lo, level_max = Finite hi,
      level_default = Finite dflt, level_step = Finite stp\<rparr>"


section \<open>Codec discovery and the context (libsail/context_private.c)\<close>

subsection \<open>Data\<close>

text \<open>
  The source is compiled for one of two platform families: with \<^verbatim>\<open>SAIL_WIN32\<close> defined,
  or without it. The platform is a parameter of the model, and every \<^verbatim>\<open>#ifdef\<close> of the
  source is a case distinction on it.
\<close>

datatype platform = Unix | Win32

text \<open>
  The values of \<^verbatim>\<open>sail_status_t\<close> that the functions below return or pass on.
  Modelled from the spec: the header declaring the status codes and the
  \<^verbatim>\<open>SAIL_CHECK_*_PTR\<close> macros is not among the sources;
  \<open>SAIL_ERROR_CONTEXT_NULL_PTR\<close> stands for the status that
  \<^verbatim>\<open>SAIL_CHECK_CONTEXT_PTR\<close> returns on a null pointer.
\<close>

datatype sail_status =
    SAIL_OK
  | SAIL_ERROR_MEMORY_ALLOCATION
  | SAIL_ERROR_ENV_UPDATE
  | SAIL_ERROR_LIST_DIR
  | SAIL_ERROR_CONTEXT_NULL_PTR
  | SAIL_ERROR_OPEN_FILE
  | SAIL_ERROR_PARSE_FILE
  | SAIL_ERROR_CODEC_LOAD

type_synonym addr = nat

record sail_codec_info =
  path :: string
  name :: string
  description :: string
  version :: string

text \<open>A loaded module, named by the path it was loaded from.\<close>

datatype sail_codec = Codec string

record sail_codec_info_node =
  codec_info :: "sail_codec_info option"
  codec :: "sail_codec option"
  next_node :: "addr option"

record sail_context =
  initialized :: bool
  codec_info_node :: "addr option"

text \<open>
  What the code finds around it and cannot change: the build configuration, the file
  system, and the answers of the operating system and of the allocator.
  \<open>malloc_ok w k\<close> says whether the \<open>k\<close>-th allocation request of the run succeeds.
  \<open>readdir\<close> is \<^verbatim>\<open>opendir\<close> followed by \<^verbatim>\<open>readdir\<close> until it returns null:
  \<open>None\<close> when the directory cannot be opened, otherwise the names in the order they
  are produced. \<open>FindFirstFile\<close> does the same for \<^verbatim>\<open>FindFirstFile\<close> and
  \<^verbatim>\<open>FindNextFile\<close> on a path with a mask. \<open>GetModuleFileName\<close> is the path of the
  library's own binary, \<open>None\<close> when \<^verbatim>\<open>GetModuleHandleEx\<close> or
  \<^verbatim>\<open>GetModuleFileName\<close> fails. \<open>codec_read_info\<close> parses a metadata file;
  \<open>dlopen\<close> loads a module.
\<close>

record world =
  platform :: platform
  SAIL_CODECS_PATH :: string
  SAIL_VCPKG_PORT :: bool
  SAIL_FLAG_PRELOAD_CODECS :: int
  malloc_ok :: "nat \<Rightarrow> bool"
  sail_is_dir :: "string \<Rightarrow> bool"
  sail_is_file :: "string \<Rightarrow> bool"
  setenv_ok :: "string \<Rightarrow> string \<Rightarrow> bool"
  AddDllDirectory_ok :: "string \<Rightarrow> bool"
  GetModuleFileName :: "string option"
  readdir :: "string \<Rightarrow> string list option"
  FindFirstFile :: "string \<Rightarrow> string list option"
  codec_read_info :: "string \<Rightarrow> sail_status + sail_codec_info"
  dlopen :: "string \<Rightarrow> sail_codec option"

text \<open>
  What the code changes: the allocator (\<open>allocs\<close> counts the allocation requests made
  so far, and the address handed out by a successful request is its number, so that no
  address is handed out twice), the process environment, the directories given to
  \<^verbatim>\<open>AddDllDirectory\<close>, the contexts and the nodes on the heap, and the thread-local
  variables of \<^verbatim>\<open>control_tls_context\<close>, \<^verbatim>\<open>sail_codecs_path\<close> and
  \<^verbatim>\<open>client_codecs_path\<close>.
\<close>

record state =
  allocs :: nat
  environ :: "string \<Rightarrow> string option"
  dll_directories :: "string list"
  contexts :: "addr \<Rightarrow> sail_context option"
  nodes :: "addr \<Rightarrow> sail_codec_info_node option"
  tls_context :: "addr option"
  sail_codecs_path_called :: bool
  sail_codecs_path_env :: "string option"
  client_codecs_path_called :: bool
  client_codecs_path_env :: "string option"

subsection \<open>C strings\<close>

text \<open>
  A C string is the list of its characters before the terminating zero.
  \<^verbatim>\<open>strstr\<close> and \<^verbatim>\<open>strrchr\<close> return a pointer into their first argument, that is
  the rest of the string from the first (last) occurrence on, or null.
\<close>

fun strstr :: "string \<Rightarrow> string \<Rightarrow> string option" where
  "strstr [] needle = (if needle = [] then Some [] else None)"
| "strstr (c # cs) needle =
     (if prefix needle (c # cs) then Some (c # cs) else strstr cs needle)"

fun strrchr :: "string \<Rightarrow> char \<Rightarrow> string option" where
  "strrchr [] c = None"
| "strrchr (x # xs) c =
     (case strrchr xs c of
        Some r \<Rightarrow> Some r
      | None \<Rightarrow> if x = c then Some (x # xs) else None)"

text \<open>
  \<^verbatim>\<open>strcpy(dest + offset, src)\<close> on a buffer holding the string \<open>dest\<close>, for an offset
  within it: the characters before the offset stay, \<open>src\<close> and its terminator follow.
\<close>

definition strcpy_at :: "string \<Rightarrow> nat \<Rightarrow> string \<Rightarrow> string" where
  "strcpy_at dest offset src = take offset dest @ src"

definition backslash :: char where
  "backslash = CHR 0x5C"

subsection \<open>Allocation and the string helpers\<close>

text \<open>
  Modelled from the spec: \<^verbatim>\<open>sail_malloc\<close>, \<^verbatim>\<open>sail_concat\<close>, \<^verbatim>\<open>sail_strdup\<close>,
  \<^verbatim>\<open>sail_strdup_length\<close> and \<^verbatim>\<open>sail_to_wchar\<close> are not among the sources. Each makes
  one allocation request, fails with the allocation error when the request fails, and
  otherwise returns the string its name says (the concatenation, the copy, the first
  \<open>length\<close> characters, the same characters as wide characters).
\<close>

definition sail_malloc :: "world \<Rightarrow> state \<Rightarrow> (sail_status + addr) \<times> state" where
  "sail_malloc w s =
     (if malloc_ok w (allocs s) then Inr (allocs s) else Inl SAIL_ERROR_MEMORY_ALLOCATION,
      s\<lparr>allocs := Suc (allocs s)\<rparr>)"

definition sail_concat :: "world \<Rightarrow> string list \<Rightarrow> state \<Rightarrow> (sail_status + string) \<times> state" where
  "sail_concat w strs s =
     (case sail_malloc w s of
        (Inl e, s') \<Rightarrow> (Inl e, s')
      | (Inr _, s') \<Rightarrow> (Inr (concat strs), s'))"

definition sail_strdup :: "world \<Rightarrow> string \<Rightarrow> state \<Rightarrow> (sail_status + string) \<times> state" where
  "sail_strdup w str s =
     (case sail_malloc w s of
        (Inl e, s') \<Rightarrow> (Inl e, s')
      | (Inr _, s') \<Rightarrow> (Inr str, s'))"

definition sail_strdup_length ::
  "world \<Rightarrow> string \<Rightarrow> nat \<Rightarrow> state \<Rightarrow> (sail_status + string) \<times> state" where
  "sail_strdup_length w str len s =
     (case sail_malloc w s of
        (Inl e, s') \<Rightarrow> (Inl e, s')
      | (Inr _, s') \<Rightarrow> (Inr (take len str), s'))"

definition sail_to_wchar :: "world \<Rightarrow> string \<Rightarrow> state \<Rightarrow> (sail_status + string) \<times> state" where
  "sail_to_wchar w str s =
     (case sail_malloc w s of
        (Inl e, s') \<Rightarrow> (Inl e, s')
      | (Inr _, s') \<Rightarrow> (Inr str, s'))"

text \<open>
  Modelled from the spec: \<^verbatim>\<open>alloc_codec_info_node\<close> and \<^verbatim>\<open>destroy_codec_info_node\<close>
  are not among the sources. The first allocates a node with all three fields null, the
  second releases one node.
\<close>

definition alloc_codec_info_node :: "world \<Rightarrow> state \<Rightarrow> (sail_status + addr) \<times> state" where
  "alloc_codec_info_node w s =
     (case sail_malloc w s of
        (Inl e, s') \<Rightarrow> (Inl e, s')
      | (Inr a, s') \<Rightarrow>
          (Inr a, s'\<lparr>nodes := (nodes s')(a \<mapsto>
             \<lparr>codec_info = None, codec = None, next_node = None\<rparr>)\<rparr>))"

definition destroy_codec_info_node :: "addr \<Rightarrow> state \<Rightarrow> state" where
  "destroy_codec_info_node a s = s\<lparr>nodes := (nodes s)(a := None)\<rparr>"

subsection \<open>The search paths\<close>

text \<open>
  A variable of the source whose name is taken by a field or a function of the model is
  written with a prime.

  \<^verbatim>\<open>sail_codecs_path\<close>. The result is \<open>None\<close> where the source has no defined result:
  on Win32, when \<^verbatim>\<open>sail_concat\<close> fails, the statement after \<^verbatim>\<open>SAIL_TRY_OR_EXECUTE\<close>
  assigns the pointer that \<^verbatim>\<open>sail_concat\<close> never set.
\<close>

definition sail_codecs_path :: "world \<Rightarrow> state \<Rightarrow> (string option \<times> state) option" where
  "sail_codecs_path w s =
     (if sail_codecs_path_called s then Some (sail_codecs_path_env s, s)
      else
        let s = s\<lparr>sail_codecs_path_called := True\<rparr> in
        (case platform w of
           Win32 \<Rightarrow>
             (case environ s ''SAIL_CODECS_PATH'' of
                Some env \<Rightarrow> Some (Some env, s\<lparr>sail_codecs_path_env := Some env\<rparr>)
              | None \<Rightarrow>
                  (case GetModuleFileName w of
                     None \<Rightarrow>
                       Some (Some (SAIL_CODECS_PATH w),
                             s\<lparr>sail_codecs_path_env := Some (SAIL_CODECS_PATH w)\<rparr>)
                   | Some path' \<Rightarrow>
                       (case strrchr path' backslash of
                          None \<Rightarrow>
                            Some (Some (SAIL_CODECS_PATH w),
                                  s\<lparr>sail_codecs_path_env := Some (SAIL_CODECS_PATH w)\<rparr>)
                        | Some last_sep \<Rightarrow>
                            let path' = take (length path' - length last_sep) path';
                                CODECS_RELATIVE_PATH =
                                  (if SAIL_VCPKG_PORT w
                                   then backslash # ''sail'' @ backslash # ''codecs''
                                   else backslash # ''..'' @ backslash # ''lib'' @
                                        backslash # ''sail'' @ backslash # ''codecs'')
                            in (case sail_concat w [path', CODECS_RELATIVE_PATH] s of
                                  (Inl e, s') \<Rightarrow> None
                                | (Inr lib_sail_codecs_path, s') \<Rightarrow>
                                    Some (Some lib_sail_codecs_path,
                                          s'\<lparr>sail_codecs_path_env :=
                                                Some lib_sail_codecs_path\<rparr>)))))
         | Unix \<Rightarrow>
             (case environ s ''SAIL_CODECS_PATH'' of
                None \<Rightarrow>
                  Some (Some (SAIL_CODECS_PATH w),
                        s\<lparr>sail_codecs_path_env := Some (SAIL_CODECS_PATH w)\<rparr>)
              | Some env \<Rightarrow> Some (Some env, s\<lparr>sail_codecs_path_env := Some env\<rparr>))))"

definition client_codecs_path :: "world \<Rightarrow> state \<Rightarrow> string option \<times> state" where
  "client_codecs_path w s =
     (if client_codecs_path_called s then (client_codecs_path_env s, s)
      else
        let s = s\<lparr>client_codecs_path_called := True\<rparr>;
            env = environ s ''SAIL_MY_CODECS_PATH''
        in (env, s\<lparr>client_codecs_path_env := env\<rparr>))"

text \<open>\<^verbatim>\<open>update_lib_path\<close>: add the \<^verbatim>\<open>lib\<close> directory of a codecs path to the loader's search path.\<close>

definition update_lib_path :: "world \<Rightarrow> string \<Rightarrow> state \<Rightarrow> sail_status \<times> state" where
  "update_lib_path w codecs_path s =
     (case platform w of
        Win32 \<Rightarrow>
          (case sail_concat w [codecs_path, backslash # ''lib''] s of
             (Inl e, s1) \<Rightarrow> (e, s1)
           | (Inr full_path_to_lib, s1) \<Rightarrow>
               if \<not> sail_is_dir w full_path_to_lib then (SAIL_OK, s1)
               else
                 (case sail_to_wchar w full_path_to_lib s1 of
                    (Inl e, s2) \<Rightarrow> (e, s2)
                  | (Inr full_path_to_lib_w, s2) \<Rightarrow>
                      if \<not> AddDllDirectory_ok w full_path_to_lib_w
                      then (SAIL_ERROR_ENV_UPDATE, s2)
                      else (SAIL_OK,
                            s2\<lparr>dll_directories :=
                                  dll_directories s2 @ [full_path_to_lib_w]\<rparr>)))
      | Unix \<Rightarrow>
          (case sail_concat w [codecs_path, ''/lib''] s of
             (Inl e, s1) \<Rightarrow> (e, s1)
           | (Inr full_path_to_lib, s1) \<Rightarrow>
               if \<not> sail_is_dir w full_path_to_lib then (SAIL_OK, s1)
               else
                 (case (case environ s1 ''LD_LIBRARY_PATH'' of
                          None \<Rightarrow> sail_strdup w full_path_to_lib s1
                        | Some env \<Rightarrow> sail_concat w [env, '':'', full_path_to_lib] s1) of
                    (Inl e, s2) \<Rightarrow> (e, s2)
                  | (Inr combined_ld_library_path, s2) \<Rightarrow>
                      if \<not> setenv_ok w ''LD_LIBRARY_PATH'' combined_ld_library_path
                      then (SAIL_ERROR_ENV_UPDATE, s2)
                      else (SAIL_OK,
                            s2\<lparr>environ := (environ s2)
                                  (''LD_LIBRARY_PATH'' \<mapsto> combined_ld_library_path)\<rparr>))))"

subsection \<open>Contexts and descriptors\<close>

definition alloc_context :: "world \<Rightarrow> state \<Rightarrow> (sail_status + addr) \<times> state" where
  "alloc_context w s =
     (case sail_malloc w s of
        (Inl e, s') \<Rightarrow> (Inl e, s')
      | (Inr ptr, s') \<Rightarrow>
          (Inr ptr, s'\<lparr>contexts := (contexts s')(ptr \<mapsto>
             \<lparr>initialized = False, codec_info_node = None\<rparr>)\<rparr>))"

definition build_full_path ::
  "world \<Rightarrow> string \<Rightarrow> string \<Rightarrow> state \<Rightarrow> (sail_status + string) \<times> state" where
  "build_full_path w sail_codecs_path' name' s =
     (case platform w of
        Win32 \<Rightarrow> sail_concat w [sail_codecs_path', [backslash], name'] s
      | Unix \<Rightarrow> sail_concat w [sail_codecs_path', ''/'', name'] s)"

definition LIB_SUFFIX :: "world \<Rightarrow> string" where
  "LIB_SUFFIX w = (case platform w of Win32 \<Rightarrow> ''dll'' | Unix \<Rightarrow> ''so'')"

text \<open>
  \<^verbatim>\<open>build_codec_from_codec_info\<close>. On success the result is the address of the new
  node, which holds the parsed descriptor with its \<open>path\<close> set to the module path.
\<close>

definition build_codec_from_codec_info ::
  "world \<Rightarrow> string \<Rightarrow> state \<Rightarrow> (sail_status + addr) \<times> state" where
  "build_codec_from_codec_info w codec_info_full_path s =
     (case strstr codec_info_full_path ''.codec.info'' of
        None \<Rightarrow> (Inl SAIL_ERROR_MEMORY_ALLOCATION, s)
      | Some codec_info_part \<Rightarrow>
          let codec_full_path_length = length codec_info_full_path - length codec_info_part in
          (case sail_strdup_length w codec_info_full_path
                  (codec_full_path_length + length (LIB_SUFFIX w) + 1) s of
             (Inl e, s1) \<Rightarrow> (Inl e, s1)
           | (Inr codec_full_path, s1) \<Rightarrow>
               let codec_full_path =
                     strcpy_at codec_full_path (codec_full_path_length + 1) (LIB_SUFFIX w) in
               (case alloc_codec_info_node w s1 of
                  (Inl e, s2) \<Rightarrow> (Inl e, s2)
                | (Inr node, s2) \<Rightarrow>
                    (case codec_read_info w codec_info_full_path of
                       Inl e \<Rightarrow> (Inl e, destroy_codec_info_node node s2)
                     | Inr codec_info' \<Rightarrow>
                         (Inr node,
                          s2\<lparr>nodes := (nodes s2)(node :=
                               map_option
                                 (\<lambda>n. n\<lparr>codec_info :=
                                        Some (codec_info'\<lparr>path := codec_full_path\<rparr>)\<rparr>)
                                 (nodes s2 node))\<rparr>)))))"


subsection \<open>The directory walk\<close>

text \<open>
  \<^verbatim>\<open>last_codec_info_node\<close> points at the pointer that the next descriptor is stored
  into: the \<^verbatim>\<open>codec_info_node\<close> field of a context, or the \<^verbatim>\<open>next\<close> field of a node.
\<close>

datatype slot = Head addr | Next addr

definition write_slot :: "slot \<Rightarrow> addr option \<Rightarrow> state \<Rightarrow> state" where
  "write_slot l v s =
     (case l of
        Head c \<Rightarrow>
          s\<lparr>contexts := (contexts s)
               (c := map_option (\<lambda>x. x\<lparr>codec_info_node := v\<rparr>) (contexts s c))\<rparr>
      | Next a \<Rightarrow>
          s\<lparr>nodes := (nodes s)
               (a := map_option (\<lambda>n. n\<lparr>next_node := v\<rparr>) (nodes s a))\<rparr>)"

text \<open>
  The body of the loop over the entries of one directory. On Win32 the mask given to
  \<^verbatim>\<open>FindFirstFile\<close> has selected the entries, and every one is handed to
  \<^verbatim>\<open>build_codec_from_codec_info\<close>; elsewhere the body itself keeps the regular files
  whose full path contains the marker.
\<close>

definition walk_entry :: "world \<Rightarrow> string \<Rightarrow> string \<Rightarrow> state \<times> slot \<Rightarrow> state \<times> slot" where
  "walk_entry w codecs_path d_name st =
     (case st of (s, last_codec_info_node) \<Rightarrow>
        (case build_full_path w codecs_path d_name s of
           (Inl e, s1) \<Rightarrow> (s1, last_codec_info_node)
         | (Inr full_path, s1) \<Rightarrow>
             (case platform w of
                Win32 \<Rightarrow>
                  (case build_codec_from_codec_info w full_path s1 of
                     (Inr node, s2) \<Rightarrow>
                       (write_slot last_codec_info_node (Some node) s2, Next node)
                   | (Inl e, s2) \<Rightarrow> (s2, last_codec_info_node))
              | Unix \<Rightarrow>
                  if sail_is_file w full_path then
                    let is_codec_info = (strstr full_path ''.codec.info'' \<noteq> None) in
                    if is_codec_info then
                      (case build_codec_from_codec_info w full_path s1 of
                         (Inr node, s2) \<Rightarrow>
                           (write_slot last_codec_info_node (Some node) s2, Next node)
                       | (Inl e, s2) \<Rightarrow> (s2, last_codec_info_node))
                    else (s1, last_codec_info_node)
                  else (s1, last_codec_info_node))))"

fun walk_entries :: "world \<Rightarrow> string \<Rightarrow> string list \<Rightarrow> state \<times> slot \<Rightarrow> state \<times> slot" where
  "walk_entries w codecs_path [] st = st"
| "walk_entries w codecs_path (d_name # rest) st =
     walk_entries w codecs_path rest (walk_entry w codecs_path d_name st)"

text \<open>
  One round of the loop over the two search paths. A status other than \<open>SAIL_OK\<close> is
  the status \<^verbatim>\<open>init_context\<close> returns with from inside the loop.
  \<^verbatim>\<open>FindFirstFile\<close> returns an invalid handle also when no file matches the mask.
\<close>

definition walk_path ::
  "world \<Rightarrow> string option \<Rightarrow> state \<times> slot \<Rightarrow> sail_status \<times> (state \<times> slot)" where
  "walk_path w codecs_path' st =
     (case codecs_path' of
        None \<Rightarrow> (SAIL_OK, st)
      | Some codecs_path \<Rightarrow>
          (case platform w of
             Win32 \<Rightarrow>
               (case st of (s, last_codec_info_node) \<Rightarrow>
                  let plugs_info_mask = backslash # ''*.codec.info'' in
                  (case sail_malloc w s of
                     (Inl e, s1) \<Rightarrow> (e, (s1, last_codec_info_node))
                   | (Inr ptr, s1) \<Rightarrow>
                       let codecs_path_with_mask = codecs_path @ plugs_info_mask in
                       (case FindFirstFile w codecs_path_with_mask of
                          None \<Rightarrow> (SAIL_ERROR_LIST_DIR, (s1, last_codec_info_node))
                        | Some [] \<Rightarrow> (SAIL_ERROR_LIST_DIR, (s1, last_codec_info_node))
                        | Some (cFileName # rest) \<Rightarrow>
                            (SAIL_OK,
                             walk_entries w codecs_path (cFileName # rest)
                               (s1, last_codec_info_node)))))
           | Unix \<Rightarrow>
               (case readdir w codecs_path of
                  None \<Rightarrow> (SAIL_OK, st)
                | Some d_names \<Rightarrow> (SAIL_OK, walk_entries w codecs_path d_names st))))"

fun walk_paths ::
  "world \<Rightarrow> string option list \<Rightarrow> state \<times> slot \<Rightarrow> sail_status \<times> (state \<times> slot)" where
  "walk_paths w [] st = (SAIL_OK, st)"
| "walk_paths w (codecs_path' # rest) st =
     (case walk_path w codecs_path' st of
        (e, st1) \<Rightarrow> if e \<noteq> SAIL_OK then (e, st1) else walk_paths w rest st1)"

subsection \<open>Loading modules\<close>

text \<open>
  Modelled from the spec: \<^verbatim>\<open>load_codec_by_codec_info\<close> is not among the sources. By
  section 4.5 of the spec, a descriptor whose module is already loaded returns the cached
  handle; otherwise the platform loader is invoked on the module path, and the handle is
  cached on success. The descriptor is given by the address of its node.
\<close>

definition load_codec_by_codec_info ::
  "world \<Rightarrow> addr \<Rightarrow> state \<Rightarrow> (sail_status + sail_codec) \<times> state" where
  "load_codec_by_codec_info w a s =
     (case nodes s a of
        None \<Rightarrow> (Inl SAIL_ERROR_CODEC_LOAD, s)
      | Some n \<Rightarrow>
          (case codec n of
             Some c \<Rightarrow> (Inr c, s)
           | None \<Rightarrow>
               (case codec_info n of
                  None \<Rightarrow> (Inl SAIL_ERROR_CODEC_LOAD, s)
                | Some codec_info' \<Rightarrow>
                    (case dlopen w (path codec_info') of
                       None \<Rightarrow> (Inl SAIL_ERROR_CODEC_LOAD, s)
                     | Some c \<Rightarrow>
                         (Inr c, s\<lparr>nodes := (nodes s)(a \<mapsto> n\<lparr>codec := Some c\<rparr>)\<rparr>)))))"

text \<open>
  The two loops of \<^verbatim>\<open>init_context\<close> that follow the chain from its head until a null
  pointer: preloading, and printing the descriptors found. A loop that never reaches a
  null pointer, or that reads a node that is not allocated, has no result.
\<close>

partial_function (option) preload_codecs :: "world \<Rightarrow> addr option \<Rightarrow> state \<Rightarrow> state option" where
  "preload_codecs w codec_info_node' s =
     (case codec_info_node' of
        None \<Rightarrow> Some s
      | Some a \<Rightarrow>
          (case nodes s a of
             None \<Rightarrow> None
           | Some n \<Rightarrow>
               let s1 = snd (load_codec_by_codec_info w a s) in
               (case nodes s1 a of
                  None \<Rightarrow> None
                | Some n1 \<Rightarrow> preload_codecs w (next_node n1) s1)))"

partial_function (option) print_codec_infos :: "state \<Rightarrow> addr option \<Rightarrow> int \<Rightarrow> int option" where
  "print_codec_infos s node counter =
     (case node of
        None \<Rightarrow> Some counter
      | Some a \<Rightarrow>
          (case nodes s a of
             None \<Rightarrow> None
           | Some n \<Rightarrow>
               (case codec_info n of
                  None \<Rightarrow> None
                | Some codec_info' \<Rightarrow> print_codec_infos s (next_node n) (counter + 1))))"

subsection \<open>Initialization\<close>

text \<open>
  \<^verbatim>\<open>init_context\<close>. The result is \<open>None\<close> when the call has no result: the context
  pointer is not null and points at no allocated context, \<^verbatim>\<open>sail_codecs_path\<close> has no
  result or a null one, or one of the two loops over the chain has none.
\<close>

definition init_context ::
  "world \<Rightarrow> addr option \<Rightarrow> int \<Rightarrow> state \<Rightarrow> (sail_status \<times> state) option" where
  "init_context w context flags s =
     (case context of
        None \<Rightarrow> Some (SAIL_ERROR_CONTEXT_NULL_PTR, s)
      | Some c \<Rightarrow>
          (case contexts s c of
             None \<Rightarrow> None
           | Some ctx \<Rightarrow>
               if initialized ctx then Some (SAIL_OK, s)
               else
                 let s0 = s\<lparr>contexts := (contexts s)(c \<mapsto> ctx\<lparr>initialized := True\<rparr>)\<rparr> in
                 (case sail_codecs_path w s0 of
                    None \<Rightarrow> None
                  | Some (None, s1) \<Rightarrow> None
                  | Some (Some our_codecs_path, s1) \<Rightarrow>
                      (case update_lib_path w our_codecs_path s1 of (e, s2) \<Rightarrow>
                         if e \<noteq> SAIL_OK then Some (e, s2)
                         else
                           (case client_codecs_path w s2 of (their_codecs_path, s3) \<Rightarrow>
                              (case (case their_codecs_path of
                                       None \<Rightarrow> (SAIL_OK, s3)
                                     | Some p \<Rightarrow> update_lib_path w p s3) of (e, s4) \<Rightarrow>
                                 if e \<noteq> SAIL_OK then Some (e, s4)
                                 else
                                   (case walk_paths w
                                           [Some our_codecs_path, their_codecs_path]
                                           (s4, Head c) of (e, (s5, last_codec_info_node)) \<Rightarrow>
                                      if e \<noteq> SAIL_OK then Some (e, s5)
                                      else
                                        (case (if and flags (SAIL_FLAG_PRELOAD_CODECS w) \<noteq> 0
                                               then (case contexts s5 c of
                                                       None \<Rightarrow> None
                                                     | Some ctx5 \<Rightarrow>
                                                         preload_codecs w (codec_info_node ctx5) s5)
                                               else Some s5) of
                                           None \<Rightarrow> None
                                         | Some s6 \<Rightarrow>
                                             (case contexts s6 c of
                                                None \<Rightarrow> None
                                              | Some ctx6 \<Rightarrow>
                                                  (case print_codec_infos s6 (codec_info_node ctx6) 1 of
                                                     None \<Rightarrow> None
                                                   | Some counter \<Rightarrow> Some (SAIL_OK, s6)))))))))))"

subsection \<open>The thread-local context\<close>

text \<open>
  Modelled from the spec: \<^verbatim>\<open>destroy_codec_info_node_chain\<close> is not among the sources.
  By section 4.1 of the spec it releases every node of the chain.
\<close>

partial_function (option) destroy_codec_info_node_chain ::
  "addr option \<Rightarrow> state \<Rightarrow> state option" where
  "destroy_codec_info_node_chain node s =
     (case node of
        None \<Rightarrow> Some s
      | Some a \<Rightarrow>
          (case nodes s a of
             None \<Rightarrow> None
           | Some n \<Rightarrow> destroy_codec_info_node_chain (next_node n) (destroy_codec_info_node a s)))"

definition destroy_context :: "addr option \<Rightarrow> state \<Rightarrow> (sail_status \<times> state) option" where
  "destroy_context context s =
     (case context of
        None \<Rightarrow> Some (SAIL_OK, s)
      | Some c \<Rightarrow>
          (case contexts s c of
             None \<Rightarrow> None
           | Some ctx \<Rightarrow>
               (case destroy_codec_info_node_chain (codec_info_node ctx) s of
                  None \<Rightarrow> None
                | Some s1 \<Rightarrow> Some (SAIL_OK, s1\<lparr>contexts := (contexts s1)(c := None)\<rparr>))))"

datatype SailContextAction = SAIL_CONTEXT_ALLOCATE | SAIL_CONTEXT_FETCH | SAIL_CONTEXT_DESTROY

text \<open>
  \<^verbatim>\<open>control_tls_context\<close>. The argument \<open>context\<close> is what the caller's variable holds
  before the call, and the second component of the result is what it holds after it.
\<close>

definition control_tls_context ::
  "world \<Rightarrow> addr option \<Rightarrow> SailContextAction \<Rightarrow> state \<Rightarrow>
     (sail_status \<times> addr option \<times> state) option" where
  "control_tls_context w context action s =
     (case action of
        SAIL_CONTEXT_ALLOCATE \<Rightarrow>
          (if tls_context s = None then
             (case alloc_context w s of
                (Inl e, s1) \<Rightarrow> Some (e, context, s1)
              | (Inr ptr, s1) \<Rightarrow> Some (SAIL_OK, Some ptr, s1\<lparr>tls_context := Some ptr\<rparr>))
           else Some (SAIL_OK, tls_context s, s))
      | SAIL_CONTEXT_FETCH \<Rightarrow> Some (SAIL_OK, tls_context s, s)
      | SAIL_CONTEXT_DESTROY \<Rightarrow>
          (case destroy_context (tls_context s) s of
             None \<Rightarrow> None
           | Some (e, s1) \<Rightarrow> Some (SAIL_OK, context, s1\<lparr>tls_context := None\<rparr>)))"

definition current_tls_context_with_flags ::
  "world \<Rightarrow> addr option \<Rightarrow> int \<Rightarrow> state \<Rightarrow> (sail_status \<times> addr option \<times> state) option" where
  "current_tls_context_with_flags w context flags s =
     (case control_tls_context w context SAIL_CONTEXT_ALLOCATE s of
        None \<Rightarrow> None
      | Some (e, context1, s1) \<Rightarrow>
          if e \<noteq> SAIL_OK then Some (e, context1, s1)
          else
            (case init_context w context1 flags s1 of
               None \<Rightarrow> None
             | Some (e, s2) \<Rightarrow> Some (e, context1, s2)))"

definition current_tls_context ::
  "world \<Rightarrow> addr option \<Rightarrow> state \<Rightarrow> (sail_status \<times> addr option \<times> state) option" where
  "current_tls_context w context s = current_tls_context_with_flags w context 0 s"


subsection \<open>The registry as a list\<close>

text \<open>
  \<open>chain h p as\<close>: following the \<^verbatim>\<open>next\<close> pointers of the heap \<open>h\<close> from \<open>p\<close> visits
  the allocated nodes at the addresses \<open>as\<close>, in this order, and then reaches a null
  pointer.
\<close>

primrec chain :: "(addr \<Rightarrow> sail_codec_info_node option) \<Rightarrow> addr option \<Rightarrow> addr list \<Rightarrow> bool" where
  "chain h p [] \<longleftrightarrow> p = None"
| "chain h p (a # as) \<longleftrightarrow>
     p = Some a \<and> (case h a of None \<Rightarrow> False | Some n \<Rightarrow> chain h (next_node n) as)"

text \<open>The descriptors held by the nodes at the given addresses.\<close>

definition node_infos :: "state \<Rightarrow> addr list \<Rightarrow> sail_codec_info option list" where
  "node_infos s as = map (\<lambda>a. Option.bind (nodes s a) codec_info) as"

text \<open>
  \<open>registry s c infos\<close>: the context at \<open>c\<close> is allocated, and the chain from its
  \<^verbatim>\<open>codec_info_node\<close> is a null-terminated chain of pairwise different nodes that hold
  the descriptors \<open>infos\<close>, in this order.
\<close>

definition registry :: "state \<Rightarrow> addr \<Rightarrow> sail_codec_info list \<Rightarrow> bool" where
  "registry s c infos \<longleftrightarrow>
     (\<exists>ctx as. contexts s c = Some ctx \<and> chain (nodes s) (codec_info_node ctx) as \<and>
        distinct as \<and> node_infos s as = map Some infos)"

text \<open>
  The state of the walk between two entries: the chain of the context at \<open>c\<close> visits the
  nodes \<open>as\<close>, \<^verbatim>\<open>last_codec_info_node\<close> points at the pointer that ends this chain, and
  every node of the chain was handed out by an earlier allocation request.
\<close>

definition walk_inv :: "addr \<Rightarrow> state \<Rightarrow> slot \<Rightarrow> addr list \<Rightarrow> bool" where
  "walk_inv c s l as \<longleftrightarrow>
     (\<exists>ctx. contexts s c = Some ctx \<and> chain (nodes s) (codec_info_node ctx) as) \<and>
     l = (if as = [] then Head c else Next (last as)) \<and>
     list_all (\<lambda>a. a < allocs s) as"

text \<open>
  Two relations between a state and a later one. \<open>same_registry\<close>: the contexts, the
  allocation count, the \<^verbatim>\<open>next\<close> pointers and the descriptors are the same.
  \<open>keeps_contexts\<close>: the thread-local context pointer is the same, and so are the
  allocated contexts and their \<^verbatim>\<open>initialized\<close> flags.
\<close>

definition same_registry :: "state \<Rightarrow> state \<Rightarrow> bool" where
  "same_registry s s' \<longleftrightarrow>
     contexts s' = contexts s \<and> allocs s' = allocs s \<and>
     (\<forall>x. map_option next_node (nodes s' x) = map_option next_node (nodes s x)) \<and>
     (\<forall>x. Option.bind (nodes s' x) codec_info = Option.bind (nodes s x) codec_info)"

definition keeps_contexts :: "state \<Rightarrow> state \<Rightarrow> bool" where
  "keeps_contexts s s' \<longleftrightarrow>
     tls_context s' = tls_context s \<and>
     (\<forall>c. map_option initialized (contexts s' c) = map_option initialized (contexts s c))"

text \<open>
  The two search paths as a call of \<^verbatim>\<open>init_context\<close> in the state \<open>s\<close> resolves them.
\<close>

definition our_codecs_path :: "world \<Rightarrow> state \<Rightarrow> string option" where
  "our_codecs_path w s = (case sail_codecs_path w s of None \<Rightarrow> None | Some (p, s') \<Rightarrow> p)"

definition their_codecs_path :: "world \<Rightarrow> state \<Rightarrow> string option" where
  "their_codecs_path w s = fst (client_codecs_path w s)"

subsection \<open>What discovery finds\<close>

text \<open>
  What the walk of the source finds, as lists and without the heap. These definitions
  follow the tests of the code, not the words of the spec: the marker is looked for with
  \<^verbatim>\<open>strstr\<close> anywhere in the full path, and the module path is the text before its
  first occurrence, a dot, and the platform's module suffix; it is not defined for a
  path without the marker.
\<close>

definition derived_module_path :: "world \<Rightarrow> string \<Rightarrow> string option" where
  "derived_module_path w full_path =
     (case strstr full_path ''.codec.info'' of
        None \<Rightarrow> None
      | Some rest \<Rightarrow>
          Some (take (length full_path - length rest) full_path @ ''.'' @ LIB_SUFFIX w))"

definition separator :: "world \<Rightarrow> string" where
  "separator w = (case platform w of Win32 \<Rightarrow> [backslash] | Unix \<Rightarrow> ''/'')"

text \<open>
  \<open>found_codec w full_path k\<close>: the descriptor that the metadata file at \<open>full_path\<close>
  yields when the next allocation request is the \<open>k\<close>-th, if it yields one, and the
  number of the next allocation request afterwards. It yields its parsed descriptor,
  with the module path, when the full path contains the marker, the module path and the
  node can be allocated, and the metadata parses.
  \<open>found_entry w dir d_name k\<close>: the same for the entry \<open>d_name\<close> of the directory
  \<open>dir\<close>, which contributes a descriptor when its full path can be built, it is a
  regular file (on Win32 the enumeration by mask stands for this test), and the file at
  its full path yields one.
\<close>

definition found_codec :: "world \<Rightarrow> string \<Rightarrow> nat \<Rightarrow> sail_codec_info option \<times> nat" where
  "found_codec w full_path k =
     (case derived_module_path w full_path of
        None \<Rightarrow> (None, k)
      | Some module_path \<Rightarrow>
          if \<not> malloc_ok w k then (None, Suc k)
          else if \<not> malloc_ok w (Suc k) then (None, Suc (Suc k))
          else
            (case codec_read_info w full_path of
               Inl e \<Rightarrow> (None, Suc (Suc k))
             | Inr codec_info' \<Rightarrow> (Some (codec_info'\<lparr>path := module_path\<rparr>), Suc (Suc k))))"

definition found_entry ::
  "world \<Rightarrow> string \<Rightarrow> string \<Rightarrow> nat \<Rightarrow> sail_codec_info option \<times> nat" where
  "found_entry w dir d_name k =
     (if \<not> malloc_ok w k then (None, Suc k)
      else
        let full_path = dir @ separator w @ d_name in
        if platform w = Unix \<and> \<not> sail_is_file w full_path then (None, Suc k)
        else found_codec w full_path (Suc k))"

fun found_entries ::
  "world \<Rightarrow> string \<Rightarrow> string list \<Rightarrow> nat \<Rightarrow> sail_codec_info list \<times> nat" where
  "found_entries w dir [] k = ([], k)"
| "found_entries w dir (d_name # rest) k =
     (case found_entry w dir d_name k of (r, k1) \<Rightarrow>
        (case found_entries w dir rest k1 of (rs, k2) \<Rightarrow>
           ((case r of None \<Rightarrow> [] | Some d \<Rightarrow> [d]) @ rs, k2)))"

text \<open>
  What one search path contributes: nothing when it is not configured; the status is
  other than \<open>SAIL_OK\<close> when the walk of this path ends initialization.
\<close>

definition found_path ::
  "world \<Rightarrow> string option \<Rightarrow> nat \<Rightarrow> sail_status \<times> sail_codec_info list \<times> nat" where
  "found_path w codecs_path' k =
     (case codecs_path' of
        None \<Rightarrow> (SAIL_OK, [], k)
      | Some dir \<Rightarrow>
          (case platform w of
             Unix \<Rightarrow>
               (case readdir w dir of
                  None \<Rightarrow> (SAIL_OK, [], k)
                | Some d_names \<Rightarrow> (SAIL_OK, found_entries w dir d_names k))
           | Win32 \<Rightarrow>
               if \<not> malloc_ok w k then (SAIL_ERROR_MEMORY_ALLOCATION, [], Suc k)
               else
                 (case FindFirstFile w (dir @ backslash # ''*.codec.info'') of
                    None \<Rightarrow> (SAIL_ERROR_LIST_DIR, [], Suc k)
                  | Some [] \<Rightarrow> (SAIL_ERROR_LIST_DIR, [], Suc k)
                  | Some (cFileName # rest) \<Rightarrow>
                      (SAIL_OK, found_entries w dir (cFileName # rest) (Suc k)))))"

fun found_paths ::
  "world \<Rightarrow> string option list \<Rightarrow> nat \<Rightarrow> sail_status \<times> sail_codec_info list \<times> nat" where
  "found_paths w [] k = (SAIL_OK, [], k)"
| "found_paths w (codecs_path' # rest) k =
     (case found_path w codecs_path' k of (e, ds, k1) \<Rightarrow>
        if e \<noteq> SAIL_OK then (e, ds, k1)
        else (case found_paths w rest k1 of (e2, ds2, k2) \<Rightarrow> (e2, ds @ ds2, k2)))"


text \<open>
  The descriptor that the tests of the code yield for an entry when no allocation fails:
  it depends on the file system alone. An entry is taken when its full path contains
  the marker anywhere.
\<close>

definition entry_descriptor :: "world \<Rightarrow> string \<Rightarrow> string \<Rightarrow> sail_codec_info option" where
  "entry_descriptor w dir d_name =
     (let full_path = dir @ separator w @ d_name in
      if platform w = Unix \<and> \<not> sail_is_file w full_path then None
      else
        (case derived_module_path w full_path of
           None \<Rightarrow> None
         | Some module_path \<Rightarrow>
             (case codec_read_info w full_path of
                Inl e \<Rightarrow> None
              | Inr codec_info' \<Rightarrow> Some (codec_info'\<lparr>path := module_path\<rparr>))))"

subsection \<open>Discovery in the words of the spec\<close>

text \<open>
  From the words of the spec (section 4.4, and the properties of section 8), not from
  the code: the metadata files are the regular files whose name ends in the metadata
  suffix \<^verbatim>\<open>.codec.info\<close>, and the module path of a metadata file is the text of its path
  that precedes this suffix, a dot, and the platform's module suffix; a path that does
  not end in the suffix has no module path. An entry with another suffix, or whose
  metadata does not parse, is malformed and has no descriptor. Allocation failures are
  left out: these definitions say what discovery yields when every allocation succeeds.
\<close>

definition spec_module_path :: "world \<Rightarrow> string \<Rightarrow> string option" where
  "spec_module_path w full_path =
     (if suffix ''.codec.info'' full_path
      then Some (take (length full_path - length ''.codec.info'') full_path @ ''.'' @
                 LIB_SUFFIX w)
      else None)"

definition spec_entry_descriptor :: "world \<Rightarrow> string \<Rightarrow> string \<Rightarrow> sail_codec_info option" where
  "spec_entry_descriptor w dir d_name =
     (let full_path = dir @ separator w @ d_name in
      if sail_is_file w full_path \<and> suffix ''.codec.info'' d_name then
        (case spec_module_path w full_path of
           None \<Rightarrow> None
         | Some module_path \<Rightarrow>
             (case codec_read_info w full_path of
                Inl e \<Rightarrow> None
              | Inr codec_info' \<Rightarrow> Some (codec_info'\<lparr>path := module_path\<rparr>)))
      else None)"

subsection \<open>Concrete installations\<close>

text \<open>
  A Unix installation: the compiled-in codecs path \<^verbatim>\<open>/p\<close> holds two codecs, a readme and
  a metadata file that does not parse; the user's codecs path \<^verbatim>\<open>/u\<close> holds one codec;
  both have a \<^verbatim>\<open>lib\<close> directory. \<open>fresh_state env\<close> is the state after the context at
  address 0 has been allocated, in the environment \<open>env\<close>.
\<close>

definition jpeg_info :: sail_codec_info where
  "jpeg_info = \<lparr>path = [], name = ''JPEG'', description = ''Joint Photographic Experts Group'',
     version = ''1.0.0''\<rparr>"

definition png_info :: sail_codec_info where
  "png_info = \<lparr>path = [], name = ''PNG'', description = ''Portable Network Graphics'',
     version = ''1.0.0''\<rparr>"

definition my_info :: sail_codec_info where
  "my_info = \<lparr>path = [], name = ''MY'', description = ''My format'', version = ''0.1.0''\<rparr>"

definition unix_world :: world where
  "unix_world =
     \<lparr>platform = Unix, SAIL_CODECS_PATH = ''/p'', SAIL_VCPKG_PORT = False,
      SAIL_FLAG_PRELOAD_CODECS = 1, malloc_ok = (\<lambda>k. True),
      sail_is_dir = (\<lambda>p. p = ''/p/lib'' \<or> p = ''/u/lib''),
      sail_is_file = (\<lambda>p. p \<noteq> ''/p/.'' \<and> p \<noteq> ''/p/..''),
      setenv_ok = (\<lambda>n v. True), AddDllDirectory_ok = (\<lambda>p. True), GetModuleFileName = None,
      readdir = (\<lambda>d. if d = ''/p''
                      then Some [''.'', ''..'', ''jpeg.codec.info'', ''README'',
                                 ''broken.codec.info'', ''png.codec.info'']
                      else if d = ''/u'' then Some [''my.codec.info''] else None),
      FindFirstFile = (\<lambda>m. None),
      codec_read_info = (\<lambda>p. if p = ''/p/jpeg.codec.info'' then Inr jpeg_info
                              else if p = ''/p/png.codec.info'' then Inr png_info
                              else if p = ''/u/my.codec.info'' then Inr my_info
                              else Inl SAIL_ERROR_PARSE_FILE),
      dlopen = (\<lambda>p. Some (Codec p))\<rparr>"

definition fresh_state :: "(string \<Rightarrow> string option) \<Rightarrow> state" where
  "fresh_state env =
     \<lparr>allocs = 1, environ = env, dll_directories = [],
      contexts = (\<lambda>a. if a = 0 then Some \<lparr>initialized = False, codec_info_node = None\<rparr>
                      else None),
      nodes = (\<lambda>a. None), tls_context = Some 0,
      sail_codecs_path_called = False, sail_codecs_path_env = None,
      client_codecs_path_called = False, client_codecs_path_env = None\<rparr>"

definition user_env :: "string \<Rightarrow> string option" where
  "user_env = (\<lambda>n. if n = ''SAIL_MY_CODECS_PATH'' then Some ''/u'' else None)"

text \<open>
  The same installation where the environment cannot take the second \<^verbatim>\<open>lib\<close>
  directory, and where it can take none.
\<close>

definition second_setenv_fails :: world where
  "second_setenv_fails = unix_world\<lparr>setenv_ok := (\<lambda>n v. v = ''/p/lib'')\<rparr>"

definition setenv_fails :: world where
  "setenv_fails = unix_world\<lparr>setenv_ok := (\<lambda>n v. False)\<rparr>"

text \<open>
  An installation whose codecs directory cannot be listed, compiled for either platform.
\<close>

definition unlistable :: "platform \<Rightarrow> world" where
  "unlistable pf =
     \<lparr>platform = pf, SAIL_CODECS_PATH = ''C:/codecs'', SAIL_VCPKG_PORT = False,
      SAIL_FLAG_PRELOAD_CODECS = 1, malloc_ok = (\<lambda>k. True),
      sail_is_dir = (\<lambda>p. False), sail_is_file = (\<lambda>p. False),
      setenv_ok = (\<lambda>n v. True), AddDllDirectory_ok = (\<lambda>p. True), GetModuleFileName = None,
      readdir = (\<lambda>d. None), FindFirstFile = (\<lambda>m. None),
      codec_read_info = (\<lambda>p. Inl SAIL_ERROR_OPEN_FILE), dlopen = (\<lambda>p. None)\<rparr>"

text \<open>
  A directory \<^verbatim>\<open>/x\<close> with a metadata file and a backup copy of it.
\<close>

definition x_world :: world where
  "x_world =
     \<lparr>platform = Unix, SAIL_CODECS_PATH = ''/x'', SAIL_VCPKG_PORT = False,
      SAIL_FLAG_PRELOAD_CODECS = 1, malloc_ok = (\<lambda>k. True),
      sail_is_dir = (\<lambda>p. False), sail_is_file = (\<lambda>p. True),
      setenv_ok = (\<lambda>n v. True), AddDllDirectory_ok = (\<lambda>p. True), GetModuleFileName = None,
      readdir = (\<lambda>d. if d = ''/x'' then Some [''jpeg.codec.info'', ''jpeg.codec.info.bak'']
                      else None),
      FindFirstFile = (\<lambda>m. None),
      codec_read_info = (\<lambda>p. if p = ''/x/jpeg.codec.info'' \<or> p = ''/x/jpeg.codec.info.bak''
                              then Inr jpeg_info else Inl SAIL_ERROR_PARSE_FILE),
      dlopen = (\<lambda>p. None)\<rparr>"


text \<open>A state whose thread-local context holds a registry of two descriptors.\<close>

definition two_codecs_state :: state where
  "two_codecs_state =
     \<lparr>allocs = 11, environ = (\<lambda>n. None), dll_directories = [],
      contexts = (\<lambda>a. if a = 0 then Some \<lparr>initialized = True, codec_info_node = Some 6\<rparr>
                      else None),
      nodes = (\<lambda>a. if a = 6
                    then Some \<lparr>codec_info = Some (jpeg_info\<lparr>path := ''/p/jpeg.so''\<rparr>),
                                codec = None, next_node = Some 10\<rparr>
                    else if a = 10
                    then Some \<lparr>codec_info = Some (png_info\<lparr>path := ''/p/png.so''\<rparr>),
                                codec = None, next_node = None\<rparr>
                    else None),
      tls_context = Some 0,
      sail_codecs_path_called = True, sail_codecs_path_env = Some ''/p'',
      client_codecs_path_called = True, client_codecs_path_env = None\<rparr>"


section \<open>Lemmas\<close>

subsection \<open>Searching in strings\<close>

lemma strstr_prefix: "prefix n h \<Longrightarrow> strstr h n = Some h"
  by (cases h) auto

lemma strstr_Some:
  "strstr h n = Some part \<Longrightarrow> \<exists>pre. h = pre @ part \<and> prefix n part"
proof (induction h)
  case Nil
  then show ?case by (auto split: if_splits)
next
  case (Cons c cs)
  show ?case
  proof (cases "prefix n (c # cs)")
    case True
    with Cons.prems show ?thesis by auto
  next
    case False
    with Cons.prems have "strstr cs n = Some part" by simp
    from Cons.IH[OF this] obtain pre where "cs = pre @ part" "prefix n part" by blast
    then have "c # cs = (c # pre) @ part" by simp
    with \<open>prefix n part\<close> show ?thesis by blast
  qed
qed


lemma strstr_first:
  "n \<noteq> [] \<Longrightarrow> \<not> sublist n (pre @ butlast n) \<Longrightarrow> strstr (pre @ n @ post) n = Some (n @ post)"
proof (induction pre)
  case Nil
  then show ?case by (simp add: strstr_prefix)
next
  case (Cons c pre)
  have np: "\<not> prefix n (c # pre @ n @ post)"
  proof
    assume p: "prefix n (c # pre @ n @ post)"
    have "length n \<le> length (c # pre @ butlast n)" by simp
    moreover have "c # pre @ n @ post = (c # pre @ butlast n) @ (last n # post)"
      using Cons.prems(1) by simp
    ultimately have "prefix n (c # pre @ butlast n)"
      using p by (metis prefix_length_prefix append_prefixD prefix_order.order_refl)
    then have "sublist n ((c # pre) @ butlast n)" by simp
    with Cons.prems show False by simp
  qed
  have "\<not> sublist n (pre @ butlast n)"
    using Cons.prems(2) by (simp add: sublist_Cons_right)
  from Cons.IH[OF Cons.prems(1) this] np show ?case by simp
qed


subsection \<open>Chains on the heap\<close>

lemma chain_unique: "chain h p as \<Longrightarrow> chain h p bs \<Longrightarrow> as = bs"
proof (induction as arbitrary: p bs)
  case Nil
  then show ?case by (cases bs) auto
next
  case (Cons a as)
  then show ?case by (cases bs) (auto split: option.splits)
qed

lemma chain_suffix: "chain h p (xs @ a # ys) \<Longrightarrow> chain h (Some a) (a # ys)"
proof (induction xs arbitrary: p)
  case Nil
  then show ?case by simp
next
  case (Cons x xs)
  from Cons.prems obtain n where "h x = Some n" "chain h (next_node n) (xs @ a # ys)"
    by (auto split: option.splits)
  then show ?case using Cons.IH by blast
qed

lemma chain_distinct: "chain h p as \<Longrightarrow> distinct as"
proof (induction as arbitrary: p)
  case Nil
  then show ?case by simp
next
  case (Cons a as)
  from Cons.prems obtain n where n: "h a = Some n" "chain h (next_node n) as"
    by (auto split: option.splits)
  have "a \<notin> set as"
  proof
    assume "a \<in> set as"
    then obtain xs ys where as: "as = xs @ a # ys" by (auto dest: split_list)
    with n have "chain h (Some a) (a # ys)" using chain_suffix by blast
    with n have "chain h (next_node n) ys" by simp
    with n have "as = ys" using chain_unique by blast
    with as show False by simp
  qed
  with Cons.IH[OF n(2)] show ?case by simp
qed

lemma chain_cong:
  "(\<And>a. a \<in> set as \<Longrightarrow> map_option next_node (h' a) = map_option next_node (h a)) \<Longrightarrow>
   chain h' p as = chain h p as"
proof (induction as arbitrary: p)
  case Nil
  then show ?case by simp
next
  case (Cons a as)
  have "map_option next_node (h' a) = map_option next_node (h a)" using Cons.prems by simp
  moreover have "chain h' q as = chain h q as" for q using Cons by simp
  ultimately show ?case by (cases "h a"; cases "h' a") auto
qed

lemma chain_snoc:
  assumes "chain h p as" "as \<noteq> []" "k \<notin> set as" "h k = Some nk" "next_node nk = None"
  shows "chain (h(last as := map_option (\<lambda>n. n\<lparr>next_node := Some k\<rparr>) (h (last as)))) p (as @ [k])"
  using assms
proof (induction as arbitrary: p)
  case Nil
  then show ?case by simp
next
  case (Cons a as)
  from Cons.prems obtain n where n: "p = Some a" "h a = Some n" "chain h (next_node n) as"
    by (auto split: option.splits)
  show ?case
  proof (cases as)
    case Nil
    with n Cons.prems show ?thesis by auto
  next
    case (Cons b bs)
    have d: "distinct (a # as)" using Cons.prems(1) by (rule chain_distinct)
    have ne: "as \<noteq> []" using Cons by simp
    then have "last as \<in> set as" by simp
    with d have al: "a \<noteq> last as" by auto
    have la: "last (a # as) = last as" using ne by simp
    define h' where "h' = h(last as := map_option (\<lambda>n. n\<lparr>next_node := Some k\<rparr>) (h (last as)))"
    have "chain h' (next_node n) (as @ [k])"
      unfolding h'_def
    proof (rule Cons.IH[OF n(3) ne])
      show "k \<notin> set as" using Cons.prems(3) by simp
    qed (use Cons.prems in simp_all)
    moreover have "h' a = Some n" using al n by (simp add: h'_def)
    ultimately have "chain h' p ((a # as) @ [k])" using n by simp
    then show ?thesis unfolding la h'_def .
  qed
qed


subsection \<open>What the steps of the walk leave alone\<close>

lemma build_full_path_eq:
  "build_full_path w dir n s =
     (if malloc_ok w (allocs s) then Inr (dir @ separator w @ n) else Inl SAIL_ERROR_MEMORY_ALLOCATION,
      s\<lparr>allocs := Suc (allocs s)\<rparr>)"
  by (cases "platform w")
     (simp_all add: build_full_path_def sail_concat_def sail_malloc_def separator_def)


lemma keeps_contexts_refl: "keeps_contexts s s"
  by (simp add: keeps_contexts_def)

lemma keeps_contexts_trans: "keeps_contexts s s1 \<Longrightarrow> keeps_contexts s1 s2 \<Longrightarrow> keeps_contexts s s2"
  by (simp add: keeps_contexts_def)

lemma keeps_contexts_allocs [simp]: "keeps_contexts s (s\<lparr>allocs := k\<rparr>)"
  by (simp add: keeps_contexts_def)

lemma update_lib_path_keeps: "keeps_contexts s (snd (update_lib_path w p s))"
  by (auto simp: keeps_contexts_def update_lib_path_def sail_concat_def sail_strdup_def
      sail_to_wchar_def sail_malloc_def
      split: platform.splits prod.splits sum.splits if_splits option.splits)

lemma sail_codecs_path_keeps: "sail_codecs_path w s = Some (p, s') \<Longrightarrow> keeps_contexts s s'"
  by (auto simp: keeps_contexts_def sail_codecs_path_def sail_concat_def sail_malloc_def Let_def
      split: platform.splits prod.splits sum.splits if_splits option.splits)

lemma client_codecs_path_keeps: "keeps_contexts s (snd (client_codecs_path w s))"
  by (auto simp: keeps_contexts_def client_codecs_path_def Let_def)

lemma build_codec_keeps: "keeps_contexts s (snd (build_codec_from_codec_info w full s))"
  by (auto simp: keeps_contexts_def build_codec_from_codec_info_def
        sail_strdup_length_def alloc_codec_info_node_def sail_malloc_def destroy_codec_info_node_def
        Let_def split: option.splits sum.splits if_splits prod.splits)

lemma write_slot_keeps: "keeps_contexts s (write_slot l v s)"
  by (cases l) (auto simp: keeps_contexts_def write_slot_def map_option_case split: option.splits)

lemma walk_entry_keeps: "keeps_contexts s (fst (walk_entry w dir n (s, l)))"
proof -
  define s1 where "s1 = s\<lparr>allocs := Suc (allocs s)\<rparr>"
  have a: "keeps_contexts s s1" by (simp add: s1_def)
  have b: "keeps_contexts s (fst (case build_codec_from_codec_info w full s1 of
             (Inr node, s2) \<Rightarrow> (write_slot l (Some node) s2, Next node)
           | (Inl e, s2) \<Rightarrow> (s2, l)))" for full
  proof -
    obtain r s2 where r: "build_codec_from_codec_info w full s1 = (r, s2)"
      by (cases "build_codec_from_codec_info w full s1")
    have k: "keeps_contexts s s2"
      using a build_codec_keeps[of s1 w full] r by (auto intro: keeps_contexts_trans)
    show ?thesis
    proof (cases r)
      case (Inl e)
      with r k show ?thesis by simp
    next
      case (Inr node)
      with r keeps_contexts_trans[OF k write_slot_keeps] show ?thesis by simp
    qed
  qed
  show ?thesis
    using a b
    by (simp add: walk_entry_def build_full_path_eq Let_def s1_def[symmetric] split: platform.splits)
qed

lemma walk_entries_keeps: "keeps_contexts s (fst (walk_entries w dir ns (s, l)))"
proof (induction ns arbitrary: s l)
  case Nil
  then show ?case by (simp add: keeps_contexts_refl)
next
  case (Cons n ns)
  obtain s1 l1 where e: "walk_entry w dir n (s, l) = (s1, l1)"
    by (cases "walk_entry w dir n (s, l)")
  have "keeps_contexts s s1" using walk_entry_keeps[of s w dir n l] e by simp
  moreover have "keeps_contexts s1 (fst (walk_entries w dir ns (s1, l1)))" by (rule Cons.IH)
  ultimately show ?case using e by (auto intro: keeps_contexts_trans)
qed

lemma walk_path_keeps: "keeps_contexts s (fst (snd (walk_path w p (s, l))))"
proof -
  define s1 where "s1 = s\<lparr>allocs := Suc (allocs s)\<rparr>"
  have a: "keeps_contexts s s1" by (simp add: s1_def)
  have b: "keeps_contexts s (fst (walk_entries w dir ns (s1, l)))" for dir ns
    using a walk_entries_keeps by (rule keeps_contexts_trans)
  show ?thesis
    using a b[of _ "_ # _"] walk_entries_keeps[of s w _ _ l]
    by (simp add: walk_path_def sail_malloc_def keeps_contexts_refl Let_def s1_def[symmetric]
        split: option.splits platform.splits list.splits)
qed

lemma walk_paths_keeps: "keeps_contexts s (fst (snd (walk_paths w ps (s, l))))"
proof (induction ps arbitrary: s l)
  case Nil
  then show ?case by (simp add: keeps_contexts_refl)
next
  case (Cons p ps)
  obtain e1 s1 l1 where w1: "walk_path w p (s, l) = (e1, (s1, l1))"
    by (cases "walk_path w p (s, l)") auto
  have "keeps_contexts s s1" using walk_path_keeps[of s w p l] w1 by simp
  moreover have "keeps_contexts s1 (fst (snd (walk_paths w ps (s1, l1))))" by (rule Cons.IH)
  ultimately show ?case using w1 by (auto intro: keeps_contexts_trans)
qed

lemma load_codec_keeps: "keeps_contexts s (snd (load_codec_by_codec_info w a s))"
  by (auto simp: load_codec_by_codec_info_def keeps_contexts_def split: option.splits)

lemma preload_codecs_keeps:
  assumes "preload_codecs w p s = Some s'"
  shows "keeps_contexts s s'"
proof (rule preload_codecs.raw_induct[where P = "\<lambda>w p s s'. keeps_contexts s s'", OF _ assms])
  fix f :: "world \<Rightarrow> addr option \<Rightarrow> state \<Rightarrow> state option" and w p s s'
  assume IH: "\<And>w p s s'. f w p s = Some s' \<Longrightarrow> keeps_contexts s s'"
    and eq: "(case p of None \<Rightarrow> Some s
      | Some a \<Rightarrow>
          (case nodes s a of None \<Rightarrow> None
           | Some n \<Rightarrow>
               let s1 = snd (load_codec_by_codec_info w a s)
               in (case nodes s1 a of None \<Rightarrow> None
                   | Some n1 \<Rightarrow> f w (next_node n1) s1))) = Some s'"
  show "keeps_contexts s s'"
  proof (cases p)
    case None
    with eq show ?thesis by (simp add: keeps_contexts_refl)
  next
    case (Some a)
    define s1 where "s1 = snd (load_codec_by_codec_info w a s)"
    from eq Some obtain n1 :: sail_codec_info_node where "f w (next_node n1) s1 = Some s'"
      by (auto simp: s1_def Let_def split: option.splits)
    then have "keeps_contexts s1 s'" by (rule IH)
    moreover have "keeps_contexts s s1" unfolding s1_def by (rule load_codec_keeps)
    ultimately show ?thesis by (blast intro: keeps_contexts_trans)
  qed
qed


subsection \<open>The walk appends what discovery finds\<close>

lemma module_path_derivation:
  assumes "strstr full ''.codec.info'' = Some part"
  shows "strcpy_at (take (length full - length part + length sfx + 1) full)
           (length full - length part + 1) sfx =
         take (length full - length part) full @ ''.'' @ sfx"
proof -
  from strstr_Some[OF assms] obtain pre where pre: "full = pre @ part" "prefix ''.codec.info'' part"
    by blast
  then obtain post where post: "part = ''.codec.info'' @ post" by (auto simp: prefix_def)
  have "take (length pre + 1) (take (length pre + length sfx + 1) full) = pre @ ''.''"
    using pre post by (simp add: min_def)
  then show ?thesis using pre by (simp add: strcpy_at_def)
qed

lemma module_path_derivation_Suc:
  assumes "strstr full ''.codec.info'' = Some part"
  shows "strcpy_at (take (Suc (length full - length part + length sfx)) full)
           (Suc (length full - length part)) sfx =
         take (length full - length part) full @ CHR ''.'' # sfx"
  using module_path_derivation[OF assms, of sfx] by simp

lemma build_codec_refines:
  assumes "build_codec_from_codec_info w full s = (r, s')"
  shows "allocs s' = snd (found_codec w full (allocs s))"
    and "contexts s' = contexts s"
    and "\<And>a. a < allocs s \<Longrightarrow> nodes s' a = nodes s a"
    and "case r of
           Inl e \<Rightarrow> fst (found_codec w full (allocs s)) = None
         | Inr a \<Rightarrow> allocs s \<le> a \<and> a < allocs s' \<and>
             (\<exists>d. fst (found_codec w full (allocs s)) = Some d \<and>
                  nodes s' a = Some \<lparr>codec_info = Some d, codec = None, next_node = None\<rparr>)"
proof -
  show "allocs s' = snd (found_codec w full (allocs s))"
    using assms
    by (auto simp: build_codec_from_codec_info_def found_codec_def derived_module_path_def
        sail_strdup_length_def alloc_codec_info_node_def sail_malloc_def destroy_codec_info_node_def
        Let_def split: option.splits sum.splits if_splits prod.splits)
  show "contexts s' = contexts s"
    using assms
    by (auto simp: build_codec_from_codec_info_def
        sail_strdup_length_def alloc_codec_info_node_def sail_malloc_def destroy_codec_info_node_def
        Let_def split: option.splits sum.splits if_splits prod.splits)
  show "\<And>a. a < allocs s \<Longrightarrow> nodes s' a = nodes s a"
    using assms
    by (auto simp: build_codec_from_codec_info_def
        sail_strdup_length_def alloc_codec_info_node_def sail_malloc_def destroy_codec_info_node_def
        Let_def split: option.splits sum.splits if_splits prod.splits)
  show "case r of
           Inl e \<Rightarrow> fst (found_codec w full (allocs s)) = None
         | Inr a \<Rightarrow> allocs s \<le> a \<and> a < allocs s' \<and>
             (\<exists>d. fst (found_codec w full (allocs s)) = Some d \<and>
                  nodes s' a = Some \<lparr>codec_info = Some d, codec = None, next_node = None\<rparr>)"
    using assms
    by (auto simp: build_codec_from_codec_info_def found_codec_def derived_module_path_def
        sail_strdup_length_def alloc_codec_info_node_def sail_malloc_def destroy_codec_info_node_def
        module_path_derivation_Suc
        Let_def split: option.splits sum.splits if_splits prod.splits)
qed

lemma walk_inv_mono:
  assumes "walk_inv c s l as" "contexts s' = contexts s"
    "\<And>a. a < allocs s \<Longrightarrow> nodes s' a = nodes s a" "allocs s \<le> allocs s'"
  shows "walk_inv c s' l as" and "node_infos s' as = node_infos s as"
proof -
  have eq: "\<And>a. a \<in> set as \<Longrightarrow> nodes s' a = nodes s a"
    using assms(1,3) by (auto simp: walk_inv_def list_all_iff)
  then have "chain (nodes s') p as = chain (nodes s) p as" for p
    by (intro chain_cong) simp
  then show "walk_inv c s' l as"
    using assms by (auto simp: walk_inv_def list_all_iff)
  show "node_infos s' as = node_infos s as"
    using eq by (simp add: node_infos_def)
qed

lemma append_node:
  assumes inv: "walk_inv c s l as"
    and fresh: "list_all (\<lambda>x. x < a) as"
    and node: "nodes s a = Some \<lparr>codec_info = Some d, codec = None, next_node = None\<rparr>"
    and lt: "a < allocs s"
  shows "walk_inv c (write_slot l (Some a) s) (Next a) (as @ [a])"
    and "node_infos (write_slot l (Some a) s) (as @ [a]) = node_infos s as @ [Some d]"
proof -
  from inv obtain ctx where ctx: "contexts s c = Some ctx"
    and ch: "chain (nodes s) (codec_info_node ctx) as"
    and l: "l = (if as = [] then Head c else Next (last as))"
    and bound: "list_all (\<lambda>a. a < allocs s) as"
    by (auto simp: walk_inv_def)
  have notin: "a \<notin> set as" using fresh by (auto simp: list_all_iff)
  show "walk_inv c (write_slot l (Some a) s) (Next a) (as @ [a])"
  proof (cases "as = []")
    case True
    then show ?thesis
      using ctx ch l node lt by (simp add: walk_inv_def write_slot_def)
  next
    case False
    have "chain ((nodes s)(last as := map_option (\<lambda>n. n\<lparr>next_node := Some a\<rparr>) (nodes s (last as))))
            (codec_info_node ctx) (as @ [a])"
      using ch False notin node by (rule chain_snoc) simp
    then show ?thesis
      using False ctx l bound lt by (simp add: walk_inv_def write_slot_def)
  qed
  show "node_infos (write_slot l (Some a) s) (as @ [a]) = node_infos s as @ [Some d]"
  proof (cases "as = []")
    case True
    then show ?thesis using l node by (simp add: node_infos_def write_slot_def)
  next
    case False
    then have "last as \<in> set as" by simp
    with notin have ne: "a \<noteq> last as" by auto
    have "Option.bind (map_option (\<lambda>n. n\<lparr>next_node := Some a\<rparr>) x) codec_info = Option.bind x codec_info"
      for x :: "sail_codec_info_node option"
      by (cases x) simp_all
    then show ?thesis
      using False l node ne by (simp add: node_infos_def write_slot_def)
  qed
qed

lemma build_codec_selected:
  assumes inv: "walk_inv c s l as"
    and b: "build_codec_from_codec_info w full s = (r, s2)"
    and st: "(s', l') = (case r of Inr node \<Rightarrow> (write_slot l (Some node) s2, Next node) | Inl e \<Rightarrow> (s2, l))"
  shows "allocs s' = snd (found_codec w full (allocs s))"
    and "\<exists>bs. walk_inv c s' l' (as @ bs) \<and>
          node_infos s' (as @ bs) = node_infos s as @
            map Some (case fst (found_codec w full (allocs s)) of None \<Rightarrow> [] | Some d \<Rightarrow> [d])"
proof -
  note R = build_codec_refines[OF b]
  have le: "allocs s \<le> allocs s2"
    using R(1) by (auto simp: found_codec_def split: option.splits sum.splits)
  note M = walk_inv_mono[OF inv R(2) R(3) le]
  have al: "allocs s' = allocs s2" using st by (cases r; cases l) (simp_all add: write_slot_def)
  then show "allocs s' = snd (found_codec w full (allocs s))" using R(1) by simp
  show "\<exists>bs. walk_inv c s' l' (as @ bs) \<and>
          node_infos s' (as @ bs) = node_infos s as @
            map Some (case fst (found_codec w full (allocs s)) of None \<Rightarrow> [] | Some d \<Rightarrow> [d])"
  proof (cases r)
    case (Inl e)
    then have "fst (found_codec w full (allocs s)) = None" using R(4) by simp
    moreover have "s' = s2" "l' = l" using st Inl by simp_all
    ultimately show ?thesis using M by (intro exI[of _ "[]"]) simp
  next
    case (Inr a)
    then obtain d where d: "allocs s \<le> a" "fst (found_codec w full (allocs s)) = Some d"
      "nodes s2 a = Some \<lparr>codec_info = Some d, codec = None, next_node = None\<rparr>"
      and lt: "a < allocs s2"
      using R(4) by auto
    have s': "s' = write_slot l (Some a) s2" "l' = Next a" using st Inr by simp_all
    have fresh: "list_all (\<lambda>x. x < a) as"
      using inv d(1) by (auto simp: walk_inv_def list_all_iff)
    from append_node[OF M(1) fresh d(3) lt] M(2) d(2) s'
    show ?thesis by (intro exI[of _ "[a]"]) simp
  qed
qed

lemma found_codec_no_marker:
  "strstr full ''.codec.info'' = None \<Longrightarrow> found_codec w full k = (None, k)"
  by (simp add: found_codec_def derived_module_path_def)

lemma walk_entry_refines:
  assumes inv: "walk_inv c s l as" and we: "walk_entry w dir n (s, l) = (s', l')"
  shows "allocs s' = snd (found_entry w dir n (allocs s))"
    and "\<exists>bs. walk_inv c s' l' (as @ bs) \<and>
          node_infos s' (as @ bs) = node_infos s as @
            map Some (case fst (found_entry w dir n (allocs s)) of None \<Rightarrow> [] | Some d \<Rightarrow> [d])"
proof -
  define s1 where "s1 = s\<lparr>allocs := Suc (allocs s)\<rparr>"
  define full where "full = dir @ separator w @ n"
  have M: "walk_inv c s1 l as" "node_infos s1 as = node_infos s as"
    using walk_inv_mono[OF inv, of s1] by (simp_all add: s1_def)
  have c1: "contexts s1 = contexts s" and a1: "allocs s1 = Suc (allocs s)"
    by (simp_all add: s1_def)
  let ?goal = "allocs s' = snd (found_entry w dir n (allocs s)) \<and>
    (\<exists>bs. walk_inv c s' l' (as @ bs) \<and>
          node_infos s' (as @ bs) = node_infos s as @
            map Some (case fst (found_entry w dir n (allocs s)) of None \<Rightarrow> [] | Some d \<Rightarrow> [d]))"
  have skip: "?goal" if "s' = s1" "l' = l" "found_entry w dir n (allocs s) = (None, Suc (allocs s))"
    using that M c1 a1 by (intro conjI exI[of _ "[]"]) simp_all
  have sel: "?goal"
    if b: "(s', l') = (case build_codec_from_codec_info w full s1 of
             (Inr node, s2) \<Rightarrow> (write_slot l (Some node) s2, Next node)
           | (Inl e, s2) \<Rightarrow> (s2, l))"
      and f: "found_entry w dir n (allocs s) = found_codec w full (Suc (allocs s))"
  proof -
    obtain r s2 where r: "build_codec_from_codec_info w full s1 = (r, s2)"
      by (cases "build_codec_from_codec_info w full s1")
    have st: "(s', l') = (case r of Inr node \<Rightarrow> (write_slot l (Some node) s2, Next node) | Inl e \<Rightarrow> (s2, l))"
      using b r by (cases r) simp_all
    from build_codec_selected[OF M(1) r st] show ?thesis
      by (simp add: f a1 M(2) c1)
  qed
  have "?goal"
  proof (cases "malloc_ok w (allocs s)")
    case False
    then have "s' = s1" "l' = l" using we
      by (simp_all add: walk_entry_def build_full_path_eq s1_def)
    moreover have "found_entry w dir n (allocs s) = (None, Suc (allocs s))"
      using False by (simp add: found_entry_def)
    ultimately show ?thesis by (rule skip)
  next
    case True
    show ?thesis
    proof (cases "platform w")
      case Win32
      have "(s', l') = (case build_codec_from_codec_info w full s1 of
             (Inr node, s2) \<Rightarrow> (write_slot l (Some node) s2, Next node)
           | (Inl e, s2) \<Rightarrow> (s2, l))"
        using we True Win32
        by (simp add: walk_entry_def build_full_path_eq s1_def full_def split: prod.splits sum.splits)
      moreover have "found_entry w dir n (allocs s) = found_codec w full (Suc (allocs s))"
        using True Win32 by (simp add: found_entry_def full_def)
      ultimately show ?thesis by (rule sel)
    next
      case Unix
      show ?thesis
      proof (cases "sail_is_file w full")
        case False
        then have "s' = s1" "l' = l" using we True Unix
          by (simp_all add: walk_entry_def build_full_path_eq s1_def full_def)
        moreover have "found_entry w dir n (allocs s) = (None, Suc (allocs s))"
          using True False Unix by (simp add: found_entry_def full_def)
        ultimately show ?thesis by (rule skip)
      next
        case isfile: True
        show ?thesis
        proof (cases "strstr full ''.codec.info''")
          case None
          then have "s' = s1" "l' = l" using we True Unix isfile
            by (simp_all add: walk_entry_def build_full_path_eq s1_def full_def)
          moreover have "found_entry w dir n (allocs s) = (None, Suc (allocs s))"
            using True isfile Unix None
            by (simp add: found_entry_def full_def[symmetric] found_codec_no_marker)
          ultimately show ?thesis by (rule skip)
        next
          case (Some part)
          have "(s', l') = (case build_codec_from_codec_info w full s1 of
             (Inr node, s2) \<Rightarrow> (write_slot l (Some node) s2, Next node)
           | (Inl e, s2) \<Rightarrow> (s2, l))"
            using we True Unix isfile Some
            by (simp add: walk_entry_def build_full_path_eq s1_def full_def split: prod.splits sum.splits)
          moreover have "found_entry w dir n (allocs s) = found_codec w full (Suc (allocs s))"
            using True Unix isfile by (simp add: found_entry_def full_def)
          ultimately show ?thesis by (rule sel)
        qed
      qed
    qed
  qed
  then show "allocs s' = snd (found_entry w dir n (allocs s))"
    and "\<exists>bs. walk_inv c s' l' (as @ bs) \<and>
          node_infos s' (as @ bs) = node_infos s as @
            map Some (case fst (found_entry w dir n (allocs s)) of None \<Rightarrow> [] | Some d \<Rightarrow> [d])"
    by blast+
qed

lemma walk_entries_refines:
  assumes "walk_inv c s l as" and "walk_entries w dir ns (s, l) = (s', l')"
  shows "allocs s' = snd (found_entries w dir ns (allocs s)) \<and>
    (\<exists>bs. walk_inv c s' l' (as @ bs) \<and>
          node_infos s' (as @ bs) = node_infos s as @
            map Some (fst (found_entries w dir ns (allocs s))))"
  using assms
proof (induction ns arbitrary: s l as)
  case Nil
  then show ?case by (intro conjI exI[of _ "[]"]) simp_all
next
  case (Cons n ns)
  obtain s1 l1 where e: "walk_entry w dir n (s, l) = (s1, l1)"
    by (cases "walk_entry w dir n (s, l)")
  note E = walk_entry_refines[OF Cons.prems(1) e]
  from E(2) obtain bs where bs: "walk_inv c s1 l1 (as @ bs)"
    "node_infos s1 (as @ bs) = node_infos s as @
       map Some (case fst (found_entry w dir n (allocs s)) of None \<Rightarrow> [] | Some d \<Rightarrow> [d])"
    by blast
  have rest: "walk_entries w dir ns (s1, l1) = (s', l')" using Cons.prems(2) e by simp
  from Cons.IH[OF bs(1) rest] obtain cs where cs:
    "allocs s' = snd (found_entries w dir ns (allocs s1))"
    "walk_inv c s' l' ((as @ bs) @ cs)"
    "node_infos s' ((as @ bs) @ cs) = node_infos s1 (as @ bs) @
       map Some (fst (found_entries w dir ns (allocs s1)))"
    by blast
  show ?case
  proof (intro conjI exI[of _ "bs @ cs"])
    show "allocs s' = snd (found_entries w dir (n # ns) (allocs s))"
      using cs(1) E(1) by (simp split: prod.splits)
    show "walk_inv c s' l' (as @ bs @ cs)" using cs(2) by simp
    show "node_infos s' (as @ bs @ cs) = node_infos s as @
            map Some (fst (found_entries w dir (n # ns) (allocs s)))"
      using cs(3) bs(2) E(1) by (simp split: prod.splits option.splits)
  qed
qed

lemma walk_path_refines:
  assumes inv: "walk_inv c s l as" and wp: "walk_path w p (s, l) = (e, (s', l'))"
  shows "e = fst (found_path w p (allocs s)) \<and>
    allocs s' = snd (snd (found_path w p (allocs s))) \<and>
    (\<exists>bs. walk_inv c s' l' (as @ bs) \<and>
          node_infos s' (as @ bs) = node_infos s as @
            map Some (fst (snd (found_path w p (allocs s)))))"
proof (cases p)
  case None
  with wp inv show ?thesis
    by (intro conjI exI[of _ "[]"]) (simp_all add: walk_path_def found_path_def)
next
  case (Some dir)
  show ?thesis
  proof (cases "platform w")
    case Unix
    show ?thesis
    proof (cases "readdir w dir")
      case None
      with wp inv Some Unix show ?thesis
        by (intro conjI exI[of _ "[]"]) (simp_all add: walk_path_def found_path_def)
    next
      case (Some ns)
      have "walk_entries w dir ns (s, l) = (s', l')" "e = SAIL_OK"
        using wp \<open>p = Some dir\<close> Unix Some by (simp_all add: walk_path_def)
      from walk_entries_refines[OF inv this(1)] this(2) show ?thesis
        using \<open>p = Some dir\<close> Unix Some by (simp add: found_path_def split: prod.splits)
    qed
  next
    case Win32
    define s1 where "s1 = s\<lparr>allocs := Suc (allocs s)\<rparr>"
    have M: "walk_inv c s1 l as" "node_infos s1 as = node_infos s as"
      using walk_inv_mono[OF inv, of s1] by (simp_all add: s1_def)
    have c1: "contexts s1 = contexts s" and a1: "allocs s1 = Suc (allocs s)"
      by (simp_all add: s1_def)
    have stop: ?thesis if "s' = s1" "l' = l" "e = fst (found_path w p (allocs s))"
       "snd (found_path w p (allocs s)) = ([], Suc (allocs s))"
      using that M c1 a1 by (intro conjI exI[of _ "[]"]) simp_all
    show ?thesis
    proof (cases "malloc_ok w (allocs s)")
      case False
      show ?thesis
        by (rule stop)
          (use wp Some Win32 False in \<open>simp_all add: walk_path_def found_path_def sail_malloc_def s1_def\<close>)
    next
      case True
      show ?thesis
      proof (cases "FindFirstFile w (dir @ backslash # ''*.codec.info'')")
        case None
        show ?thesis
          by (rule stop)
            (use wp Some Win32 True None in \<open>simp_all add: walk_path_def found_path_def sail_malloc_def s1_def\<close>)
      next
        case found: (Some ns)
        show ?thesis
        proof (cases ns)
          case Nil
          show ?thesis
            by (rule stop)
              (use wp Some Win32 True found Nil in \<open>simp_all add: walk_path_def found_path_def sail_malloc_def s1_def\<close>)
        next
          case (Cons n ns')
          have "walk_entries w dir ns (s1, l) = (s', l')" "e = SAIL_OK"
            using wp Some Win32 True found Cons
            by (simp_all add: walk_path_def sail_malloc_def s1_def)
          from walk_entries_refines[OF M(1) this(1)] this(2) show ?thesis
            using Some Win32 True found Cons M(2) c1 a1
            by (simp add: found_path_def split: prod.splits)
        qed
      qed
    qed
  qed
qed

lemma found_paths_Cons:
  "found_paths w (p # ps) k =
     (let r = found_path w p k in
      if fst r \<noteq> SAIL_OK then r
      else let r2 = found_paths w ps (snd (snd r)) in
        (fst r2, fst (snd r) @ fst (snd r2), snd (snd r2)))"
  by (simp add: Let_def split: prod.splits)

lemma walk_paths_refines:
  assumes "walk_inv c s l as" and "walk_paths w ps (s, l) = (e, (s', l'))"
  shows "e = fst (found_paths w ps (allocs s)) \<and>
    allocs s' = snd (snd (found_paths w ps (allocs s))) \<and>
    (\<exists>bs. walk_inv c s' l' (as @ bs) \<and>
          node_infos s' (as @ bs) = node_infos s as @
            map Some (fst (snd (found_paths w ps (allocs s)))))"
  using assms
proof (induction ps arbitrary: s l as)
  case Nil
  then show ?case by (intro conjI exI[of _ "[]"]) simp_all
next
  case (Cons p ps)
  obtain e1 s1 l1 where w1: "walk_path w p (s, l) = (e1, (s1, l1))"
    by (cases "walk_path w p (s, l)") auto
  from walk_path_refines[OF Cons.prems(1) w1] obtain bs where P:
    "e1 = fst (found_path w p (allocs s))"
    "allocs s1 = snd (snd (found_path w p (allocs s)))"
    "walk_inv c s1 l1 (as @ bs)"
    "node_infos s1 (as @ bs) = node_infos s as @ map Some (fst (snd (found_path w p (allocs s))))"
    by blast
  show ?case
  proof (cases "e1 = SAIL_OK")
    case False
    then have "e = e1" "s' = s1" "l' = l1" using Cons.prems(2) w1 by simp_all
    with P False show ?thesis
      by (intro conjI exI[of _ bs]) (simp_all add: found_paths_Cons del: found_paths.simps)
  next
    case True
    then have rest: "walk_paths w ps (s1, l1) = (e, (s', l'))" using Cons.prems(2) w1 by simp
    from Cons.IH[OF P(3) rest] obtain cs where Q:
      "e = fst (found_paths w ps (allocs s1))"
      "allocs s' = snd (snd (found_paths w ps (allocs s1)))"
      "walk_inv c s' l' ((as @ bs) @ cs)"
      "node_infos s' ((as @ bs) @ cs) = node_infos s1 (as @ bs) @
         map Some (fst (snd (found_paths w ps (allocs s1))))"
      by blast
    show ?thesis
    proof (intro conjI exI[of _ "bs @ cs"])
      show "e = fst (found_paths w (p # ps) (allocs s))"
        using Q(1) P(1,2) True by (simp add: found_paths_Cons Let_def del: found_paths.simps)
      show "allocs s' = snd (snd (found_paths w (p # ps) (allocs s)))"
        using Q(2) P(1,2) True by (simp add: found_paths_Cons Let_def del: found_paths.simps)
      show "walk_inv c s' l' (as @ bs @ cs)" using Q(3) by simp
      show "node_infos s' (as @ bs @ cs) = node_infos s as @
            map Some (fst (snd (found_paths w (p # ps) (allocs s))))"
        using Q(4) P(1,2,4) True by (simp add: found_paths_Cons Let_def del: found_paths.simps)
    qed
  qed
qed


subsection \<open>The loops over the chain end\<close>

lemma same_registry_refl: "same_registry s s"
  by (simp add: same_registry_def)

lemma same_registry_trans: "same_registry s s1 \<Longrightarrow> same_registry s1 s2 \<Longrightarrow> same_registry s s2"
  by (simp add: same_registry_def)

lemma same_registry_chain: "same_registry s s' \<Longrightarrow> chain (nodes s') p as = chain (nodes s) p as"
  by (rule chain_cong) (simp add: same_registry_def)

lemma same_registry_registry: "same_registry s s' \<Longrightarrow> registry s c ds \<Longrightarrow> registry s' c ds"
  unfolding registry_def node_infos_def
  by (auto simp: same_registry_chain) (auto simp: same_registry_def)

lemma load_codec_same_registry: "same_registry s (snd (load_codec_by_codec_info w a s))"
  by (auto simp: load_codec_by_codec_info_def same_registry_def split: option.splits)

lemma preload_codecs_None [simp]: "preload_codecs w None s = Some s"
  by (subst preload_codecs.simps) simp

lemma print_codec_infos_None [simp]: "print_codec_infos s None k = Some k"
  by (subst print_codec_infos.simps) simp

lemma destroy_chain_None [simp]: "destroy_codec_info_node_chain None s = Some s"
  by (subst destroy_codec_info_node_chain.simps) simp

lemma preload_codecs_total:
  "chain (nodes s) p as \<Longrightarrow> \<exists>s'. preload_codecs w p s = Some s' \<and> same_registry s s'"
proof (induction as arbitrary: p s)
  case Nil
  then show ?case by (simp add: same_registry_refl)
next
  case (Cons a as)
  from Cons.prems obtain n where n: "p = Some a" "nodes s a = Some n" "chain (nodes s) (next_node n) as"
    by (auto split: option.splits)
  define s1 where "s1 = snd (load_codec_by_codec_info w a s)"
  have sr: "same_registry s s1" unfolding s1_def by (rule load_codec_same_registry)
  then have "map_option next_node (nodes s1 a) = map_option next_node (nodes s a)"
    by (simp add: same_registry_def)
  with n obtain n1 where n1: "nodes s1 a = Some n1" "next_node n1 = next_node n" by auto
  have "chain (nodes s1) (next_node n1) as"
    using n(3) n1(2) same_registry_chain[OF sr] by simp
  from Cons.IH[OF this] obtain s' where s': "preload_codecs w (next_node n1) s1 = Some s'"
    "same_registry s1 s'" by blast
  have "preload_codecs w p s = Some s'"
    by (subst preload_codecs.simps) (simp add: n n1(1) s' s1_def[symmetric])
  with sr s'(2) show ?case by (blast intro: same_registry_trans)
qed

lemma print_codec_infos_total:
  "chain (nodes s) p as \<Longrightarrow> list_all (\<lambda>x. x \<noteq> None) (node_infos s as) \<Longrightarrow>
   \<exists>n. print_codec_infos s p k = Some n"
proof (induction as arbitrary: p k)
  case Nil
  then show ?case by simp
next
  case (Cons a as)
  from Cons.prems obtain n where n: "p = Some a" "nodes s a = Some n" "chain (nodes s) (next_node n) as"
    by (auto split: option.splits)
  from Cons.prems(2) n obtain d where d: "codec_info n = Some d"
    and rest: "list_all (\<lambda>x. x \<noteq> None) (node_infos s as)"
    by (auto simp: node_infos_def)
  from Cons.IH[OF n(3) rest] obtain m where "print_codec_infos s (next_node n) (k + 1) = Some m"
    by blast
  then have "print_codec_infos s p k = Some m"
    by (subst print_codec_infos.simps) (simp add: n d)
  then show ?case by blast
qed

lemma destroy_chain_total:
  "chain (nodes s) p as \<Longrightarrow>
   \<exists>s'. destroy_codec_info_node_chain p s = Some s' \<and> contexts s' = contexts s \<and>
        tls_context s' = tls_context s \<and>
        nodes s' = (\<lambda>x. if x \<in> set as then None else nodes s x)"
proof (induction as arbitrary: p s)
  case Nil
  then show ?case by simp
next
  case (Cons a as)
  from Cons.prems obtain n where n: "p = Some a" "nodes s a = Some n" "chain (nodes s) (next_node n) as"
    by (auto split: option.splits)
  have "distinct (a # as)" using Cons.prems by (rule chain_distinct)
  then have notin: "a \<notin> set as" by simp
  define s1 where "s1 = destroy_codec_info_node a s"
  have "chain (nodes s1) (next_node n) as = chain (nodes s) (next_node n) as"
    by (rule chain_cong) (use notin in \<open>auto simp: s1_def destroy_codec_info_node_def\<close>)
  with n have "chain (nodes s1) (next_node n) as" by simp
  from Cons.IH[OF this] obtain s' where s': "destroy_codec_info_node_chain (next_node n) s1 = Some s'"
    "contexts s' = contexts s1" "tls_context s' = tls_context s1"
    "nodes s' = (\<lambda>x. if x \<in> set as then None else nodes s1 x)" by blast
  have "destroy_codec_info_node_chain p s = Some s'"
    by (subst destroy_codec_info_node_chain.simps) (simp add: n s' s1_def[symmetric])
  moreover have "nodes s' = (\<lambda>x. if x \<in> set (a # as) then None else nodes s x)"
    using s'(4) by (auto simp: s1_def destroy_codec_info_node_def)
  ultimately show ?case using s'(2,3) by (simp add: s1_def destroy_codec_info_node_def)
qed

lemma walk_inv_registry:
  "walk_inv c s l as \<Longrightarrow> node_infos s as = map Some ds \<Longrightarrow> registry s c ds"
  by (auto simp: walk_inv_def registry_def dest: chain_distinct)


subsection \<open>Initialization\<close>

lemma update_lib_path_frame:
  assumes "update_lib_path w p s = (e, s')"
  shows "contexts s' = contexts s" "nodes s' = nodes s" "allocs s \<le> allocs s'"
    "client_codecs_path_called s' = client_codecs_path_called s"
    "client_codecs_path_env s' = client_codecs_path_env s"
    "environ s' ''SAIL_MY_CODECS_PATH'' = environ s ''SAIL_MY_CODECS_PATH''"
  using assms
  by (auto simp: update_lib_path_def sail_concat_def sail_strdup_def sail_to_wchar_def sail_malloc_def
      split: platform.splits prod.splits sum.splits if_splits option.splits)

lemma sail_codecs_path_frame:
  assumes "sail_codecs_path w s = Some (p, s')"
  shows "contexts s' = contexts s" "nodes s' = nodes s" "allocs s \<le> allocs s'"
    "client_codecs_path_called s' = client_codecs_path_called s"
    "client_codecs_path_env s' = client_codecs_path_env s"
    "environ s' = environ s"
  using assms
  by (auto simp: sail_codecs_path_def sail_concat_def sail_malloc_def Let_def
      split: platform.splits prod.splits sum.splits if_splits option.splits)

lemma client_codecs_path_frame:
  assumes "client_codecs_path w s = (p, s')"
  shows "contexts s' = contexts s" "nodes s' = nodes s" "allocs s' = allocs s"
  using assms
  by (auto simp: client_codecs_path_def Let_def split: if_splits)

lemma client_codecs_path_cong:
  "client_codecs_path_called s' = client_codecs_path_called s \<Longrightarrow>
   client_codecs_path_env s' = client_codecs_path_env s \<Longrightarrow>
   environ s' ''SAIL_MY_CODECS_PATH'' = environ s ''SAIL_MY_CODECS_PATH'' \<Longrightarrow>
   fst (client_codecs_path w s') = fst (client_codecs_path w s)"
  by (simp add: client_codecs_path_def Let_def)

lemma our_codecs_path_contexts [simp]:
  "our_codecs_path w (s\<lparr>contexts := x\<rparr>) = our_codecs_path w s"
  by (simp add: our_codecs_path_def sail_codecs_path_def sail_concat_def sail_malloc_def Let_def
      split: platform.splits prod.splits sum.splits if_splits option.splits)

lemma their_codecs_path_contexts [simp]:
  "their_codecs_path w (s\<lparr>contexts := x\<rparr>) = their_codecs_path w s"
  by (simp add: their_codecs_path_def client_codecs_path_def Let_def)

lemma init_context_cases:
  assumes ctx: "contexts s c = Some ctx" "\<not> initialized ctx" "codec_info_node ctx = None"
    and path: "our_codecs_path w s = Some our"
  shows "\<exists>e s' ds k. init_context w (Some c) flags s = Some (e, s') \<and> registry s' c ds \<and>
           (\<exists>ctx'. contexts s' c = Some ctx' \<and> initialized ctx') \<and> allocs s \<le> k \<and>
           (e = SAIL_OK \<longrightarrow> found_paths w [Some our, their_codecs_path w s] k = (SAIL_OK, ds, allocs s'))"
proof -
  define s0 where "s0 = s\<lparr>contexts := (contexts s)(c \<mapsto> ctx\<lparr>initialized := True\<rparr>)\<rparr>"
  have "our_codecs_path w s0 = Some our" using path by (simp add: s0_def)
  then obtain s1 where p1: "sail_codecs_path w s0 = Some (Some our, s1)"
    by (auto simp: our_codecs_path_def split: option.splits)
  note F1 = sail_codecs_path_frame[OF p1]
  obtain e2 s2 where u1: "update_lib_path w our s1 = (e2, s2)"
    by (cases "update_lib_path w our s1")
  note F2 = update_lib_path_frame[OF u1]
  have c0: "contexts s0 c = Some (ctx\<lparr>initialized := True\<rparr>)" by (simp add: s0_def)
  have n0: "nodes s0 = nodes s" "allocs s0 = allocs s" by (simp_all add: s0_def)
  have empty: "registry t c []" if "contexts t c = Some (ctx\<lparr>initialized := True\<rparr>)" for t
    using that ctx(3) by (auto simp: registry_def node_infos_def intro: exI[of _ "[]"])
  show ?thesis
  proof (cases "e2 = SAIL_OK")
    case False
    then have "init_context w (Some c) flags s = Some (e2, s2)"
      using ctx p1 u1 by (simp add: init_context_def s0_def[symmetric])
    moreover have "contexts s2 c = Some (ctx\<lparr>initialized := True\<rparr>)" using F1 F2 c0 by simp
    moreover have "allocs s \<le> allocs s2" using F1 F2 n0 by simp
    ultimately show ?thesis using False empty by (intro exI[of _ e2] exI[of _ s2] exI[of _ "[]"]) auto
  next
    case ok1: True
    obtain their s3 where cl: "client_codecs_path w s2 = (their, s3)"
      by (cases "client_codecs_path w s2")
    note F3 = client_codecs_path_frame[OF cl]
    have their: "their = their_codecs_path w s"
    proof -
      have "fst (client_codecs_path w s2) = fst (client_codecs_path w s0)"
        using F1 F2 by (intro client_codecs_path_cong) simp_all
      then show ?thesis using cl by (simp add: their_codecs_path_def[symmetric] s0_def)
    qed
    obtain e4 s4 where u2: "(case their of None \<Rightarrow> (SAIL_OK, s3) | Some p \<Rightarrow> update_lib_path w p s3) = (e4, s4)"
      by (cases "(case their of None \<Rightarrow> (SAIL_OK, s3) | Some p \<Rightarrow> update_lib_path w p s3)")
    have F4: "contexts s4 = contexts s3" "nodes s4 = nodes s3" "allocs s3 \<le> allocs s4"
      using u2 update_lib_path_frame(1-3) by (cases their; auto)+
    have c4: "contexts s4 c = Some (ctx\<lparr>initialized := True\<rparr>)" using F1 F2 F3 F4 c0 by simp
    have a4: "allocs s \<le> allocs s4" using F1 F2 F3 F4 n0 by simp
    show ?thesis
    proof (cases "e4 = SAIL_OK")
      case False
      then have "init_context w (Some c) flags s = Some (e4, s4)"
        using ctx p1 u1 ok1 cl u2 by (simp add: init_context_def s0_def[symmetric])
      then show ?thesis using False empty[OF c4] c4 a4
        by (intro exI[of _ e4] exI[of _ s4] exI[of _ "[]"]) auto
    next
      case ok2: True
      obtain e5 s5 l5 where wk: "walk_paths w [Some our, their] (s4, Head c) = (e5, (s5, l5))"
        by (cases "walk_paths w [Some our, their] (s4, Head c)") auto
      have inv4: "walk_inv c s4 (Head c) []" using c4 ctx(3) by (simp add: walk_inv_def)
      from walk_paths_refines[OF inv4 wk] obtain bs where W:
        "e5 = fst (found_paths w [Some our, their] (allocs s4))"
        "allocs s5 = snd (snd (found_paths w [Some our, their] (allocs s4)))"
        "walk_inv c s5 l5 bs"
        "node_infos s5 bs = map Some (fst (snd (found_paths w [Some our, their] (allocs s4))))"
        by (auto simp: node_infos_def)
      have "keeps_contexts s4 s5"
        using walk_paths_keeps[of s4 w "[Some our, their]" "Head c"] unfolding wk by simp
      then have W5: "map_option initialized (contexts s5 c) = map_option initialized (contexts s4 c)"
        by (simp add: keeps_contexts_def)
      define ds where "ds = fst (snd (found_paths w [Some our, their] (allocs s4)))"
      have fp: "found_paths w [Some our, their] (allocs s4) = (e5, ds, allocs s5)"
        using W(1,2) by (simp add: ds_def)
      have reg5: "registry s5 c ds" using W(3,4) unfolding ds_def by (rule walk_inv_registry)
      from W(3) obtain ctx5 where c5: "contexts s5 c = Some ctx5"
        "chain (nodes s5) (codec_info_node ctx5) bs" by (auto simp: walk_inv_def)
      have i5: "initialized ctx5" using W5 c5 c4 by simp
      show ?thesis
      proof (cases "e5 = SAIL_OK")
        case False
        then have "init_context w (Some c) flags s = Some (e5, s5)"
          using ctx p1 u1 ok1 cl u2 ok2 wk by (simp add: init_context_def s0_def[symmetric])
        then show ?thesis using False reg5 c5 i5 a4
          by (intro exI[of _ e5] exI[of _ s5] exI[of _ ds] exI[of _ "allocs s4"]) auto
      next
        case ok3: True
        obtain s6 where s6: "(if and flags (SAIL_FLAG_PRELOAD_CODECS w) \<noteq> 0
              then (case contexts s5 c of
                      None \<Rightarrow> None
                    | Some ctx5 \<Rightarrow> preload_codecs w (codec_info_node ctx5) s5)
              else Some s5) = Some s6"
          "same_registry s5 s6"
        proof (cases "and flags (SAIL_FLAG_PRELOAD_CODECS w) \<noteq> 0")
          case True
          from preload_codecs_total[OF c5(2), of w] obtain t where
            "preload_codecs w (codec_info_node ctx5) s5 = Some t" "same_registry s5 t" by blast
          with True c5(1) that show ?thesis by simp
        next
          case False
          with that[of s5] show ?thesis by (simp add: same_registry_refl)
        qed
        have a6: "allocs s6 = allocs s5" using s6(2) by (simp add: same_registry_def)
        have ch6: "chain (nodes s6) (codec_info_node ctx5) bs"
          using c5(2) same_registry_chain[OF s6(2)] by simp
        have "node_infos s6 bs = node_infos s5 bs"
          using s6(2) by (simp add: node_infos_def same_registry_def)
        then have "list_all (\<lambda>x. x \<noteq> None) (node_infos s6 bs)"
          using W(4) by (simp add: list_all_iff)
        from print_codec_infos_total[OF ch6 this] obtain m where
          pr: "print_codec_infos s6 (codec_info_node ctx5) 1 = Some m" by blast
        have c6: "contexts s6 c = Some ctx5" using s6(2) c5 by (simp add: same_registry_def)
        have "init_context w (Some c) flags s = Some (SAIL_OK, s6)"
          using ctx p1 u1 ok1 cl u2 ok2 wk ok3 s6(1) c6 pr
          by (simp add: init_context_def s0_def[symmetric])
        moreover have "registry s6 c ds" using s6(2) reg5 by (rule same_registry_registry)
        ultimately show ?thesis using i5 a4 fp ok3 their a6 c6
          by (intro exI[of _ SAIL_OK] exI[of _ s6] exI[of _ ds] exI[of _ "allocs s4"]) auto
      qed
    qed
  qed
qed

lemma init_context_initialized:
  assumes "init_context w (Some c) flags s = Some (e, s')"
  shows "(\<exists>ctx'. contexts s' c = Some ctx' \<and> initialized ctx') \<and> tls_context s' = tls_context s"
proof -
  from assms obtain ctx where ctx: "contexts s c = Some ctx"
    by (auto simp: init_context_def split: option.splits)
  show ?thesis
  proof (cases "initialized ctx")
    case True
    with assms ctx show ?thesis by (simp add: init_context_def)
  next
    case False
    define s0 where "s0 = s\<lparr>contexts := (contexts s)(c \<mapsto> ctx\<lparr>initialized := True\<rparr>)\<rparr>"
    have run: "init_context w (Some c) flags s = Some (e, s')" by (rule assms)
    note unfold = init_context_def s0_def[symmetric]
    obtain our s1 where p1: "sail_codecs_path w s0 = Some (Some our, s1)"
    proof (cases "sail_codecs_path w s0")
      case None
      with run ctx False show ?thesis by (simp add: unfold)
    next
      case (Some r)
      obtain po s1 where r: "r = (po, s1)" by (cases r)
      show ?thesis
      proof (cases po)
        case None
        with run ctx False Some r show ?thesis by (simp add: unfold)
      next
        case (Some our)
        with \<open>sail_codecs_path w s0 = Some r\<close> r that show ?thesis by simp
      qed
    qed
    obtain e2 s2 where u1: "update_lib_path w our s1 = (e2, s2)"
      by (cases "update_lib_path w our s1")
    obtain their s3 where cl: "client_codecs_path w s2 = (their, s3)"
      by (cases "client_codecs_path w s2")
    obtain e4 s4 where u2: "(case their of None \<Rightarrow> (SAIL_OK, s3) | Some p \<Rightarrow> update_lib_path w p s3) = (e4, s4)"
      by (cases "(case their of None \<Rightarrow> (SAIL_OK, s3) | Some p \<Rightarrow> update_lib_path w p s3)")
    obtain e5 s5 l5 where wk: "walk_paths w [Some our, their] (s4, Head c) = (e5, (s5, l5))"
      by (cases "walk_paths w [Some our, their] (s4, Head c)") auto
    have k1: "keeps_contexts s0 s1" using p1 by (rule sail_codecs_path_keeps)
    have k2: "keeps_contexts s1 s2" using update_lib_path_keeps[of s1 w our] u1 by simp
    have k3: "keeps_contexts s2 s3" using client_codecs_path_keeps[of s2 w] cl by simp
    have k4: "keeps_contexts s3 s4"
    proof (cases their)
      case None
      with u2 show ?thesis by (simp add: keeps_contexts_refl)
    next
      case (Some p)
      with u2 update_lib_path_keeps[of s3 w p] show ?thesis by simp
    qed
    have k5: "keeps_contexts s4 s5"
      using walk_paths_keeps[of s4 w "[Some our, their]" "Head c"] unfolding wk by simp
    note K2 = keeps_contexts_trans[OF k1 k2]
    note K4 = keeps_contexts_trans[OF keeps_contexts_trans[OF K2 k3] k4]
    note K5 = keeps_contexts_trans[OF K4 k5]
    have "keeps_contexts s0 s'"
    proof (cases "e2 = SAIL_OK")
      case False
      with run ctx \<open>\<not> initialized ctx\<close> p1 u1 K2 show ?thesis by (simp add: unfold)
    next
      case ok1: True
      show ?thesis
      proof (cases "e4 = SAIL_OK")
        case False
        with run ctx \<open>\<not> initialized ctx\<close> p1 u1 ok1 cl u2 K4 show ?thesis by (simp add: unfold)
      next
        case ok2: True
        show ?thesis
        proof (cases "e5 = SAIL_OK")
          case False
          with run ctx \<open>\<not> initialized ctx\<close> p1 u1 ok1 cl u2 ok2 wk K5 show ?thesis by (simp add: unfold)
        next
          case ok3: True
          define X where "X = (if and flags (SAIL_FLAG_PRELOAD_CODECS w) \<noteq> 0
                then (case contexts s5 c of
                        None \<Rightarrow> None
                      | Some ctx5 \<Rightarrow> preload_codecs w (codec_info_node ctx5) s5)
                else Some s5)"
          from run ctx \<open>\<not> initialized ctx\<close> p1 u1 ok1 cl u2 ok2 wk ok3 have
            "(case X of
                None \<Rightarrow> None
              | Some s6 \<Rightarrow>
                  (case contexts s6 c of
                     None \<Rightarrow> None
                   | Some ctx6 \<Rightarrow>
                       (case print_codec_infos s6 (codec_info_node ctx6) 1 of
                          None \<Rightarrow> None
                        | Some counter \<Rightarrow> Some (SAIL_OK, s6)))) = Some (e, s')"
            by (simp add: unfold X_def)
          then have "X = Some s'" by (auto split: option.splits)
          then have "keeps_contexts s5 s'"
            unfolding X_def
            by (auto split: if_splits option.splits simp: keeps_contexts_refl
                dest: preload_codecs_keeps)
          with K5 show ?thesis by (rule keeps_contexts_trans)
        qed
      qed
    qed
    then show ?thesis by (auto simp: keeps_contexts_def s0_def dest: spec[of _ c])
  qed
qed


section \<open>The claims\<close>

subsection \<open>Further lemmas, and evaluation on concrete installations\<close>

lemma strstr_first_codec_info:
  assumes "full = pre @ ''.codec.info'' @ post" "\<not> sublist ''.codec.info'' (pre @ ''.codec.inf'')"
  shows "strstr full ''.codec.info'' = Some (''.codec.info'' @ post)"
proof -
  have "strstr (pre @ ''.codec.info'' @ post) ''.codec.info'' = Some (''.codec.info'' @ post)"
    by (rule strstr_first) (use assms(2) in simp_all)
  then show ?thesis using assms(1) by simp
qed

lemma derived_module_path_first:
  assumes "full = pre @ ''.codec.info'' @ post" "\<not> sublist ''.codec.info'' (pre @ ''.codec.inf'')"
  shows "derived_module_path w full = Some (pre @ ''.'' @ LIB_SUFFIX w)"
  using strstr_first_codec_info[OF assms] assms(1) by (simp add: derived_module_path_def)

lemma sublist_eval:
  "sublist xs (y # ys) \<longleftrightarrow> prefix xs (y # ys) \<or> sublist xs ys"
  by (simp add: sublist_Cons_right)

lemma found_entries_Cons:
  "found_entries w dir (n # ns) k =
     (let r = found_entry w dir n k; rs = found_entries w dir ns (snd r) in
      ((case fst r of None \<Rightarrow> [] | Some d \<Rightarrow> [d]) @ fst rs, snd rs))"
  by (simp add: Let_def split: prod.splits)

lemma found_entries_no_failure:
  assumes "\<And>k. malloc_ok w k"
  shows "fst (found_entries w dir d_names k) = List.map_filter (entry_descriptor w dir) d_names"
proof (induction d_names arbitrary: k)
  case Nil
  then show ?case by simp
next
  case (Cons n ns)
  have "fst (found_entry w dir n k) = entry_descriptor w dir n"
    using assms
    by (simp add: found_entry_def entry_descriptor_def found_codec_def Let_def
        split: option.splits sum.splits)
  then show ?case
    using Cons.IH
    by (simp add: found_entries_Cons Let_def del: found_entries.simps split: option.splits)
qed

lemma found_entries_append:
  "found_entries w dir (xs @ ys) k =
     (let r = found_entries w dir xs k; r2 = found_entries w dir ys (snd r) in
      (fst r @ fst r2, snd r2))"
proof (induction xs arbitrary: k)
  case Nil
  then show ?case by (simp add: Let_def)
next
  case (Cons x xs)
  show ?case
    using Cons.IH[of "snd (found_entry w dir x k)"]
    by (simp add: found_entries_Cons Let_def del: found_entries.simps)
qed

lemma fresh_walk_inv: "walk_inv 0 (fresh_state env) (Head 0) []"
  by (simp add: walk_inv_def fresh_state_def)

lemma fresh_node_infos: "node_infos (fresh_state env) [] = map Some []"
  by (simp add: node_infos_def)

lemma preload_codecs_Some:
  "preload_codecs w (Some a) s =
     (case nodes s a of
        None \<Rightarrow> None
      | Some n \<Rightarrow>
          let s1 = snd (load_codec_by_codec_info w a s) in
          (case nodes s1 a of
             None \<Rightarrow> None
           | Some n1 \<Rightarrow> preload_codecs w (next_node n1) s1))"
  by (subst preload_codecs.simps) simp

lemma print_codec_infos_Some:
  "print_codec_infos s (Some a) k =
     (case nodes s a of
        None \<Rightarrow> None
      | Some n \<Rightarrow>
          (case codec_info n of
             None \<Rightarrow> None
           | Some d \<Rightarrow> print_codec_infos s (next_node n) (k + 1)))"
  by (subst print_codec_infos.simps) simp

lemmas eval_defs =
  init_context_def sail_codecs_path_def update_lib_path_def
  client_codecs_path_def sail_concat_def sail_strdup_def sail_to_wchar_def sail_malloc_def Let_def
  walk_path_def walk_entry_def build_full_path_def build_codec_from_codec_info_def
  sail_strdup_length_def alloc_codec_info_node_def destroy_codec_info_node_def strcpy_at_def
  LIB_SUFFIX_def write_slot_def load_codec_by_codec_info_def
  preload_codecs_Some print_codec_infos_Some

lemma unix_init_ok:
  "\<exists>s'. init_context unix_world (Some 0) 1 (fresh_state user_env) = Some (SAIL_OK, s')"
  by (simp add: eval_defs unix_world_def fresh_state_def user_env_def)

lemma two_codecs_registry:
  "registry two_codecs_state 0 [jpeg_info\<lparr>path := ''/p/jpeg.so''\<rparr>, png_info\<lparr>path := ''/p/png.so''\<rparr>]"
  unfolding registry_def
  by (intro exI[of _ "\<lparr>initialized = True, codec_info_node = Some 6\<rparr>"] exI[of _ "[6, 10]"])
     (simp add: two_codecs_state_def node_infos_def)

lemma walk_path_unlistable:
  "readdir w dir = None \<Longrightarrow> platform w = Unix \<Longrightarrow> walk_path w (Some dir) st = (SAIL_OK, st)"
  "FindFirstFile w (dir @ backslash # ''*.codec.info'') = None \<Longrightarrow> platform w = Win32 \<Longrightarrow>
     malloc_ok w (allocs s) \<Longrightarrow>
     walk_path w (Some dir) (s, l) = (SAIL_ERROR_LIST_DIR, (s\<lparr>allocs := Suc (allocs s)\<rparr>, l))"
  by (simp_all add: walk_path_def sail_malloc_def)


subsection \<open>The loader path\<close>

text \<open>
  C1, as the code has it. The claim that a failure to extend the loader's search path for
  the user's codecs path is only logged does not hold: both calls of
  \<^verbatim>\<open>update_lib_path\<close> stand under \<^verbatim>\<open>SAIL_TRY\<close>, and both come before the first
  directory is opened. In the installation \<open>second_setenv_fails\<close> the first path is
  extended, the second is not: \<^verbatim>\<open>init_context\<close> returns \<open>SAIL_ERROR_ENV_UPDATE\<close> and
  the registry is empty, although the first path holds two codecs.
\<close>

theorem C1_secondary_failure_counterexample:
  "map_option fst (init_context second_setenv_fails (Some 0) 0 (fresh_state user_env)) =
     Some SAIL_ERROR_ENV_UPDATE \<and>
   registry (snd (the (init_context second_setenv_fails (Some 0) 0 (fresh_state user_env)))) 0 [] \<and>
   fst (snd (found_path second_setenv_fails (Some ''/p'') 3)) =
     [jpeg_info\<lparr>path := ''/p/jpeg.so''\<rparr>, png_info\<lparr>path := ''/p/png.so''\<rparr>]"
proof (intro conjI)
  show "map_option fst (init_context second_setenv_fails (Some 0) 0 (fresh_state user_env)) =
     Some SAIL_ERROR_ENV_UPDATE"
    by (simp add: eval_defs second_setenv_fails_def unix_world_def fresh_state_def user_env_def)
  show "registry (snd (the (init_context second_setenv_fails (Some 0) 0 (fresh_state user_env)))) 0 []"
    by (simp add: eval_defs second_setenv_fails_def unix_world_def fresh_state_def user_env_def
        registry_def node_infos_def)
  have m: "\<And>k. malloc_ok second_setenv_fails k"
    by (simp add: second_setenv_fails_def unix_world_def)
  have "found_path second_setenv_fails (Some ''/p'') 3 =
      (SAIL_OK, found_entries second_setenv_fails ''/p''
        [''.'', ''..'', ''jpeg.codec.info'', ''README'', ''broken.codec.info'', ''png.codec.info''] 3)"
    by (simp add: found_path_def second_setenv_fails_def unix_world_def)
  then have "fst (snd (found_path second_setenv_fails (Some ''/p'') 3)) =
      List.map_filter (entry_descriptor second_setenv_fails ''/p'')
        [''.'', ''..'', ''jpeg.codec.info'', ''README'', ''broken.codec.info'', ''png.codec.info'']"
    by (simp add: found_entries_no_failure[OF m] del: found_entries.simps)
  then show "fst (snd (found_path second_setenv_fails (Some ''/p'') 3)) =
     [jpeg_info\<lparr>path := ''/p/jpeg.so''\<rparr>, png_info\<lparr>path := ''/p/png.so''\<rparr>]"
    by (simp add: entry_descriptor_def second_setenv_fails_def
        unix_world_def separator_def derived_module_path_def LIB_SUFFIX_def Let_def)
qed

text \<open>
  C1, amended. When \<^verbatim>\<open>update_lib_path\<close> returns a status other than \<open>SAIL_OK\<close>, for
  the first codecs path or for the user's, \<^verbatim>\<open>init_context\<close> returns this status at
  once: no directory has been scanned, the nodes on the heap are those from before the
  call, and the context is the one from before the call with \<^verbatim>\<open>initialized\<close> set.
\<close>

theorem C1_loader_path_failure_aborts:
  assumes "contexts s c = Some ctx" and "\<not> initialized ctx"
    and "sail_codecs_path w (s\<lparr>contexts := (contexts s)(c \<mapsto> ctx\<lparr>initialized := True\<rparr>)\<rparr>) =
           Some (Some our, s1)"
  shows "(update_lib_path w our s1 = (e, s2) \<and> e \<noteq> SAIL_OK \<longrightarrow>
            init_context w (Some c) flags s = Some (e, s2) \<and>
            nodes s2 = nodes s \<and> contexts s2 c = Some (ctx\<lparr>initialized := True\<rparr>)) \<and>
         (update_lib_path w our s1 = (SAIL_OK, s2') \<and>
          client_codecs_path w s2' = (Some their, s3) \<and>
          update_lib_path w their s3 = (e', s4) \<and> e' \<noteq> SAIL_OK \<longrightarrow>
            init_context w (Some c) flags s = Some (e', s4) \<and>
            nodes s4 = nodes s \<and> contexts s4 c = Some (ctx\<lparr>initialized := True\<rparr>))"
proof (intro conjI impI; elim conjE)
  note F1 = sail_codecs_path_frame[OF assms(3)]
  {
    assume u: "update_lib_path w our s1 = (e, s2)" and e: "e \<noteq> SAIL_OK"
    note F2 = update_lib_path_frame[OF u]
    show "init_context w (Some c) flags s = Some (e, s2)"
      using assms u e by (simp add: init_context_def)
    show "nodes s2 = nodes s" using F1 F2 by simp
    show "contexts s2 c = Some (ctx\<lparr>initialized := True\<rparr>)" using F1 F2 by simp
  }
  {
    assume u: "update_lib_path w our s1 = (SAIL_OK, s2')"
      and cl: "client_codecs_path w s2' = (Some their, s3)"
      and u2: "update_lib_path w their s3 = (e', s4)" and e: "e' \<noteq> SAIL_OK"
    note F2 = update_lib_path_frame[OF u]
    note F3 = client_codecs_path_frame[OF cl]
    note F4 = update_lib_path_frame[OF u2]
    show "init_context w (Some c) flags s = Some (e', s4)"
      using assms u cl u2 e by (simp add: init_context_def)
    show "nodes s4 = nodes s" using F1 F2 F3 F4 by simp
    show "contexts s4 c = Some (ctx\<lparr>initialized := True\<rparr>)" using F1 F2 F3 F4 by simp
  }
qed

text \<open>An instance of C1, amended, on a concrete installation.\<close>

theorem C1_loader_path_failure_aborts_witness:
  "map_option fst (init_context second_setenv_fails (Some 0) 0 (fresh_state user_env)) =
     Some SAIL_ERROR_ENV_UPDATE \<and>
   map_option (\<lambda>r. nodes (snd r)) (init_context second_setenv_fails (Some 0) 0 (fresh_state user_env)) =
     Some (nodes (fresh_state user_env)) \<and>
   map_option fst (init_context setenv_fails (Some 0) 0 (fresh_state user_env)) =
     Some SAIL_ERROR_ENV_UPDATE \<and>
   map_option (\<lambda>r. nodes (snd r)) (init_context setenv_fails (Some 0) 0 (fresh_state user_env)) =
     Some (nodes (fresh_state user_env))"
proof -
  define ctx where "ctx = \<lparr>initialized = False, codec_info_node = None\<rparr>"
  define s0 where "s0 = (fresh_state user_env)\<lparr>contexts :=
    (contexts (fresh_state user_env))(0 \<mapsto> ctx\<lparr>initialized := True\<rparr>)\<rparr>"
  have c: "contexts (fresh_state user_env) 0 = Some ctx" "\<not> initialized ctx"
    by (simp_all add: fresh_state_def ctx_def)
  \<comment> \<open>the second path fails\<close>
  define s1 where "s1 = snd (the (sail_codecs_path second_setenv_fails s0))"
  define s2 where "s2 = snd (update_lib_path second_setenv_fails ''/p'' s1)"
  define s3 where "s3 = snd (client_codecs_path second_setenv_fails s2)"
  define s4 where "s4 = snd (update_lib_path second_setenv_fails ''/u'' s3)"
  have p: "sail_codecs_path second_setenv_fails s0 = Some (Some ''/p'', s1)"
    by (simp add: s1_def s0_def sail_codecs_path_def second_setenv_fails_def unix_world_def
        fresh_state_def user_env_def)
  have u1: "update_lib_path second_setenv_fails ''/p'' s1 = (SAIL_OK, s2)"
    by (simp add: s2_def s1_def s0_def sail_codecs_path_def update_lib_path_def sail_concat_def
        sail_strdup_def sail_malloc_def second_setenv_fails_def unix_world_def
        fresh_state_def user_env_def)
  have cl: "client_codecs_path second_setenv_fails s2 = (Some ''/u'', s3)"
    by (simp add: s3_def s2_def s1_def s0_def sail_codecs_path_def update_lib_path_def
        client_codecs_path_def sail_concat_def
        sail_strdup_def sail_malloc_def second_setenv_fails_def unix_world_def
        fresh_state_def user_env_def Let_def)
  have u2: "update_lib_path second_setenv_fails ''/u'' s3 = (SAIL_ERROR_ENV_UPDATE, s4)"
    by (simp add: s4_def s3_def s2_def s1_def s0_def sail_codecs_path_def update_lib_path_def
        client_codecs_path_def sail_concat_def
        sail_strdup_def sail_malloc_def second_setenv_fails_def unix_world_def
        fresh_state_def user_env_def Let_def)
  have A: "init_context second_setenv_fails (Some 0) 0 (fresh_state user_env) =
       Some (SAIL_ERROR_ENV_UPDATE, s4) \<and> nodes s4 = nodes (fresh_state user_env)"
    using C1_loader_path_failure_aborts[OF c p[unfolded s0_def],
        of SAIL_OK s2 0 s2 "''/u''" s3 SAIL_ERROR_ENV_UPDATE s4] u1 cl u2
    by simp
  \<comment> \<open>the first path fails\<close>
  define t1 where "t1 = snd (the (sail_codecs_path setenv_fails s0))"
  define t2 where "t2 = snd (update_lib_path setenv_fails ''/p'' t1)"
  have q: "sail_codecs_path setenv_fails s0 = Some (Some ''/p'', t1)"
    by (simp add: t1_def s0_def sail_codecs_path_def setenv_fails_def unix_world_def
        fresh_state_def user_env_def)
  have v1: "update_lib_path setenv_fails ''/p'' t1 = (SAIL_ERROR_ENV_UPDATE, t2)"
    by (simp add: t2_def t1_def s0_def sail_codecs_path_def update_lib_path_def sail_concat_def
        sail_strdup_def sail_malloc_def setenv_fails_def unix_world_def
        fresh_state_def user_env_def)
  have B: "init_context setenv_fails (Some 0) 0 (fresh_state user_env) =
       Some (SAIL_ERROR_ENV_UPDATE, t2) \<and> nodes t2 = nodes (fresh_state user_env)"
    using C1_loader_path_failure_aborts[OF c q[unfolded s0_def],
        of SAIL_ERROR_ENV_UPDATE t2 0 t2 "''/u''" t2 SAIL_OK t2] v1
    by simp
  from A B show ?thesis by simp
qed


subsection \<open>Initialization happens once\<close>

text \<open>
  C2. \<^verbatim>\<open>init_context\<close> is idempotent: once a call on a context has returned, with
  whatever status, a second call on it returns \<open>SAIL_OK\<close> and leaves the whole state as
  it is, so the registry holds the same descriptors in the same order and no allocation
  request has been made; and the same holds for \<^verbatim>\<open>current_tls_context_with_flags\<close> when
  the context is the thread's own.
\<close>

theorem C2_init_context_idempotent:
  assumes "init_context w (Some c) flags s = Some (e, s1)"
  shows "\<exists>s2. init_context w (Some c) flags s1 = Some (SAIL_OK, s2) \<and> s2 = s1 \<and>
              (\<forall>ds. registry s2 c ds = registry s1 c ds) \<and>
              (tls_context s1 = Some c \<longrightarrow>
                 current_tls_context_with_flags w x flags s1 = Some (SAIL_OK, Some c, s1))"
proof -
  from init_context_initialized[OF assms] obtain ctx' where
    "contexts s1 c = Some ctx'" "initialized ctx'" by blast
  then have again: "init_context w (Some c) flags s1 = Some (SAIL_OK, s1)"
    by (simp add: init_context_def)
  then have "tls_context s1 = Some c \<longrightarrow>
      current_tls_context_with_flags w x flags s1 = Some (SAIL_OK, Some c, s1)"
    by (simp add: current_tls_context_with_flags_def control_tls_context_def)
  with again show ?thesis by simp
qed

text \<open>An instance of C2 on a concrete installation.\<close>

theorem C2_init_context_idempotent_witness:
  "init_context unix_world (Some 0) 1
     (snd (the (init_context unix_world (Some 0) 1 (fresh_state user_env)))) =
   Some (SAIL_OK, snd (the (init_context unix_world (Some 0) 1 (fresh_state user_env)))) \<and>
   current_tls_context_with_flags unix_world None 1
     (snd (the (init_context unix_world (Some 0) 1 (fresh_state user_env)))) =
   Some (SAIL_OK, Some 0, snd (the (init_context unix_world (Some 0) 1 (fresh_state user_env))))"
proof -
  from unix_init_ok obtain s' where
    run: "init_context unix_world (Some 0) 1 (fresh_state user_env) = Some (SAIL_OK, s')" by blast
  have "tls_context s' = tls_context (fresh_state user_env)"
    using init_context_initialized[OF run] by simp
  then have tls: "tls_context s' = Some 0" by (simp add: fresh_state_def)
  from C2_init_context_idempotent[OF run, of None] tls run show ?thesis by simp
qed

text \<open>
  C9. \<^verbatim>\<open>init_context\<close> sets \<^verbatim>\<open>initialized\<close> before it does anything else. Whatever
  status a call on a context returns, the context is marked initialized afterwards, and
  every later call on it, in whatever installation and with whatever flags, returns
  \<open>SAIL_OK\<close> at once and leaves the state as it is: discovery is not tried again.
\<close>

theorem C9_initialized_before_discovery:
  assumes "init_context w (Some c) flags s = Some (e, s')"
  shows "(\<exists>ctx'. contexts s' c = Some ctx' \<and> initialized ctx') \<and>
         (\<forall>w' flags'. init_context w' (Some c) flags' s' = Some (SAIL_OK, s'))"
proof -
  from init_context_initialized[OF assms] obtain ctx' where
    c: "contexts s' c = Some ctx'" "initialized ctx'" by blast
  then have "init_context w' (Some c) flags' s' = Some (SAIL_OK, s')" for w' flags'
    by (simp add: init_context_def)
  with c show ?thesis by simp
qed

text \<open>An instance of C9 on a concrete installation.\<close>

theorem C9_initialized_before_discovery_witness:
  "map_option fst (init_context setenv_fails (Some 0) 0 (fresh_state user_env)) =
     Some SAIL_ERROR_ENV_UPDATE \<and>
   init_context unix_world (Some 0) 1
     (snd (the (init_context setenv_fails (Some 0) 0 (fresh_state user_env)))) =
   Some (SAIL_OK, snd (the (init_context setenv_fails (Some 0) 0 (fresh_state user_env)))) \<and>
   registry (snd (the (init_context setenv_fails (Some 0) 0 (fresh_state user_env)))) 0 []"
proof -
  have "\<exists>s'. init_context setenv_fails (Some 0) 0 (fresh_state user_env) = Some (SAIL_ERROR_ENV_UPDATE, s')"
    by (simp add: eval_defs setenv_fails_def unix_world_def fresh_state_def user_env_def)
  then obtain s' where
    run: "init_context setenv_fails (Some 0) 0 (fresh_state user_env) = Some (SAIL_ERROR_ENV_UPDATE, s')"
    by blast
  have reg: "registry (snd (the (init_context setenv_fails (Some 0) 0 (fresh_state user_env)))) 0 []"
    by (simp add: eval_defs setenv_fails_def unix_world_def fresh_state_def user_env_def
        registry_def node_infos_def)
  from C9_initialized_before_discovery[OF run] run reg show ?thesis by simp
qed


subsection \<open>Module paths\<close>



lemma derived_module_path_suffix_only:
  assumes "\<not> sublist ''.codec.info'' (pre @ ''.codec.inf'')"
  shows "derived_module_path w (pre @ ''.codec.info'') = spec_module_path w (pre @ ''.codec.info'')"
proof -
  have "derived_module_path w (pre @ ''.codec.info'') = Some (pre @ ''.'' @ LIB_SUFFIX w)"
    using derived_module_path_first[of "pre @ ''.codec.info''" pre "[]" w] assms by simp
  moreover have "suffix ''.codec.info'' (pre @ ''.codec.info'')"
    by (rule suffix_appendI) simp
  ultimately show ?thesis by (simp add: spec_module_path_def)
qed




text \<open>
  C10. The marker may stand anywhere in the full path. An entry that is a regular file
  (on Win32: any entry the enumeration yields) and whose full path contains
  \<^verbatim>\<open>.codec.info\<close>, first after the text \<open>pre\<close>, is parsed whatever follows the marker:
  when its metadata parses, the walk appends its descriptor with the module path \<open>pre\<close>, a
  dot and the platform's suffix. The regular file \<^verbatim>\<open>/x/jpeg.codec.info.bak\<close> yields a
  descriptor with the module path \<^verbatim>\<open>/x/jpeg.so\<close>.
\<close>

theorem C10_marker_anywhere_in_path:
  assumes "platform w = Win32 \<or> sail_is_file w (dir @ separator w @ d_name)"
    and "dir @ separator w @ d_name = pre @ ''.codec.info'' @ post"
    and "\<not> sublist ''.codec.info'' (pre @ ''.codec.inf'')"
    and "malloc_ok w (allocs s)" "malloc_ok w (Suc (allocs s))" "malloc_ok w (Suc (Suc (allocs s)))"
    and "walk_inv c s l as" "node_infos s as = map Some ds"
  shows "registry (fst (walk_entry w dir d_name (s, l))) c
           (ds @ (case codec_read_info w (dir @ separator w @ d_name) of
                    Inl e \<Rightarrow> []
                  | Inr codec_info' \<Rightarrow> [codec_info'\<lparr>path := pre @ ''.'' @ LIB_SUFFIX w\<rparr>]))"
proof -
  obtain s' l' where run: "walk_entry w dir d_name (s, l) = (s', l')"
    by (cases "walk_entry w dir d_name (s, l)")
  have sel: "\<not> (platform w = Unix \<and> \<not> sail_is_file w (dir @ separator w @ d_name))"
    using assms(1) by auto
  have "fst (found_entry w dir d_name (allocs s)) =
      (case codec_read_info w (dir @ separator w @ d_name) of
         Inl e \<Rightarrow> None
       | Inr codec_info' \<Rightarrow> Some (codec_info'\<lparr>path := pre @ ''.'' @ LIB_SUFFIX w\<rparr>))"
    using sel assms(4-6) derived_module_path_first[OF assms(2,3), of w]
    by (simp add: found_entry_def found_codec_def Let_def split: sum.splits)
  moreover from walk_entry_refines(2)[OF assms(7) run] obtain bs where
    "walk_inv c s' l' (as @ bs)"
    "node_infos s' (as @ bs) = node_infos s as @
       map Some (case fst (found_entry w dir d_name (allocs s)) of None \<Rightarrow> [] | Some d \<Rightarrow> [d])"
    by blast
  ultimately have "registry s' c
           (ds @ (case codec_read_info w (dir @ separator w @ d_name) of
                    Inl e \<Rightarrow> []
                  | Inr codec_info' \<Rightarrow> [codec_info'\<lparr>path := pre @ ''.'' @ LIB_SUFFIX w\<rparr>]))"
    using assms(8) by (intro walk_inv_registry) (simp_all split: sum.splits)
  then show ?thesis using run by simp
qed

text \<open>An instance of C10 on a concrete installation.\<close>

theorem C10_marker_anywhere_in_path_witness:
  "registry (fst (walk_entry x_world ''/x'' ''jpeg.codec.info.bak'' (fresh_state user_env, Head 0))) 0
     [jpeg_info\<lparr>path := ''/x/jpeg.so''\<rparr>]"
proof -
  have ns: "\<not> sublist ''.codec.info'' (''/x/jpeg'' @ ''.codec.inf'')"
    by (simp add: sublist_eval)
  have w: "platform x_world = Win32 \<or> sail_is_file x_world (''/x'' @ separator x_world @ ''jpeg.codec.info.bak'')"
    "''/x'' @ separator x_world @ ''jpeg.codec.info.bak'' = ''/x/jpeg'' @ ''.codec.info'' @ ''.bak''"
    "malloc_ok x_world (allocs (fresh_state user_env))"
    "malloc_ok x_world (Suc (allocs (fresh_state user_env)))"
    "malloc_ok x_world (Suc (Suc (allocs (fresh_state user_env))))"
    by (simp_all add: x_world_def separator_def)
  have r: "codec_read_info x_world (''/x'' @ separator x_world @ ''jpeg.codec.info.bak'') = Inr jpeg_info"
    by (simp add: x_world_def separator_def)
  have sfx: "LIB_SUFFIX x_world = ''so''" by (simp add: LIB_SUFFIX_def x_world_def)
  from C10_marker_anywhere_in_path[OF w(1,2) ns w(3-5) fresh_walk_inv fresh_node_infos]
  show ?thesis unfolding r by (simp add: sfx)
qed


subsection \<open>The registry after the walk\<close>

text \<open>
  Failures stay with their entry. The walk over the entries of one directory appends to
  the registry exactly the descriptors that \<open>found_entries\<close> lists, in their order: an
  entry whose full path cannot be built, that is no regular file, whose path lacks the
  marker, whose module path or node cannot be allocated, or whose metadata does not
  parse contributes nothing, and the entries after it are processed as if it were not
  there. When no allocation fails, these are the descriptors of the entries that
  \<open>entry_descriptor\<close> takes, whatever stands between them.
\<close>

lemma walk_entries_registry:
  assumes "walk_inv c s l as" and "node_infos s as = map Some ds"
  shows "registry (fst (walk_entries w dir d_names (s, l))) c
           (ds @ fst (found_entries w dir d_names (allocs s))) \<and>
         ((\<forall>k. malloc_ok w k) \<longrightarrow>
            fst (found_entries w dir d_names (allocs s)) =
              List.map_filter (entry_descriptor w dir) d_names)"
proof
  obtain s' l' where run: "walk_entries w dir d_names (s, l) = (s', l')"
    by (cases "walk_entries w dir d_names (s, l)")
  from walk_entries_refines[OF assms(1) run] obtain bs where
    "walk_inv c s' l' (as @ bs)"
    "node_infos s' (as @ bs) = node_infos s as @ map Some (fst (found_entries w dir d_names (allocs s)))"
    by blast
  then have "registry s' c (ds @ fst (found_entries w dir d_names (allocs s)))"
    using assms(2) by (intro walk_inv_registry) simp_all
  then show "registry (fst (walk_entries w dir d_names (s, l))) c
           (ds @ fst (found_entries w dir d_names (allocs s)))"
    using run by simp
  show "(\<forall>k. malloc_ok w k) \<longrightarrow>
            fst (found_entries w dir d_names (allocs s)) =
              List.map_filter (entry_descriptor w dir) d_names"
    by (simp add: found_entries_no_failure)
qed


text \<open>
  The walk over \<^verbatim>\<open>/p\<close>: two codecs are found beside the two directory entries, the
  readme and the metadata file that does not parse.
\<close>

lemma walk_entries_registry_example:
  "registry (fst (walk_entries unix_world ''/p''
       [''.'', ''..'', ''jpeg.codec.info'', ''README'', ''broken.codec.info'', ''png.codec.info'']
       (fresh_state user_env, Head 0))) 0
     [jpeg_info\<lparr>path := ''/p/jpeg.so''\<rparr>, png_info\<lparr>path := ''/p/png.so''\<rparr>]"
proof -
  have m: "\<forall>k. malloc_ok unix_world k" by (simp add: unix_world_def)
  have d: "List.map_filter (entry_descriptor unix_world ''/p'')
       [''.'', ''..'', ''jpeg.codec.info'', ''README'', ''broken.codec.info'', ''png.codec.info''] =
     [jpeg_info\<lparr>path := ''/p/jpeg.so''\<rparr>, png_info\<lparr>path := ''/p/png.so''\<rparr>]"
    by (simp add: entry_descriptor_def unix_world_def separator_def
        derived_module_path_def LIB_SUFFIX_def Let_def)
  note T = walk_entries_registry[OF fresh_walk_inv fresh_node_infos, of unix_world "''/p''"
      "[''.'', ''..'', ''jpeg.codec.info'', ''README'', ''broken.codec.info'', ''png.codec.info'']" user_env]
  from T m have eq: "fst (found_entries unix_world ''/p''
       [''.'', ''..'', ''jpeg.codec.info'', ''README'', ''broken.codec.info'', ''png.codec.info'']
       (allocs (fresh_state user_env))) =
     List.map_filter (entry_descriptor unix_world ''/p'')
       [''.'', ''..'', ''jpeg.codec.info'', ''README'', ''broken.codec.info'', ''png.codec.info'']"
    by blast
  from T show ?thesis unfolding eq d by (simp del: walk_entries.simps)
qed


text \<open>
  C4. Partial-failure isolation, and which entries count as malformed. The walk compiled
  without \<^verbatim>\<open>SAIL_WIN32\<close> takes every regular file whose full path contains the marker,
  where the walk compiled with it enumerates by the mask \<^verbatim>\<open>*.codec.info\<close> and the spec
  selects by the suffix of the name. In the directory \<^verbatim>\<open>/x\<close> with the metadata file
  \<^verbatim>\<open>jpeg.codec.info\<close> and its backup \<^verbatim>\<open>jpeg.codec.info.bak\<close>, one entry has the metadata
  suffix and one has a wrong suffix: discovery in the words of the spec yields one
  descriptor, while \<^verbatim>\<open>init_context\<close> returns \<open>SAIL_OK\<close> and leaves a registry of two,
  both with the module path \<^verbatim>\<open>/x/jpeg.so\<close>.
\<close>

theorem C4_backup_file_registered:
  "map_option fst (init_context x_world (Some 0) 0 (fresh_state user_env)) = Some SAIL_OK \<and>
   registry (snd (the (init_context x_world (Some 0) 0 (fresh_state user_env)))) 0
     [jpeg_info\<lparr>path := ''/x/jpeg.so''\<rparr>, jpeg_info\<lparr>path := ''/x/jpeg.so''\<rparr>] \<and>
   readdir x_world ''/x'' = Some [''jpeg.codec.info'', ''jpeg.codec.info.bak''] \<and>
   List.map_filter (spec_entry_descriptor x_world ''/x'')
       [''jpeg.codec.info'', ''jpeg.codec.info.bak''] =
     [jpeg_info\<lparr>path := ''/x/jpeg.so''\<rparr>]"
proof (intro conjI)
  have "\<exists>s'. init_context x_world (Some 0) 0 (fresh_state user_env) = Some (SAIL_OK, s')"
    by (simp add: eval_defs x_world_def fresh_state_def user_env_def)
  then obtain s1 where
    run: "init_context x_world (Some 0) 0 (fresh_state user_env) = Some (SAIL_OK, s1)" by blast
  then show "map_option fst (init_context x_world (Some 0) 0 (fresh_state user_env)) = Some SAIL_OK"
    by simp
  have fresh: "contexts (fresh_state user_env) 0 = Some \<lparr>initialized = False, codec_info_node = None\<rparr>"
    by (simp add: fresh_state_def)
  have our: "our_codecs_path x_world (fresh_state user_env) = Some ''/x''"
    by (simp add: our_codecs_path_def sail_codecs_path_def x_world_def fresh_state_def user_env_def)
  have their: "their_codecs_path x_world (fresh_state user_env) = Some ''/u''"
    by (simp add: their_codecs_path_def client_codecs_path_def fresh_state_def user_env_def Let_def)
  have m: "\<And>k. malloc_ok x_world k" by (simp add: x_world_def)
  have p: "fst (snd (found_path x_world (Some ''/x'') k)) =
      [jpeg_info\<lparr>path := ''/x/jpeg.so''\<rparr>, jpeg_info\<lparr>path := ''/x/jpeg.so''\<rparr>]" for k
  proof -
    have "found_path x_world (Some ''/x'') k = (SAIL_OK, found_entries x_world ''/x''
       [''jpeg.codec.info'', ''jpeg.codec.info.bak''] k)"
      by (simp add: found_path_def x_world_def)
    then have "fst (snd (found_path x_world (Some ''/x'') k)) =
        List.map_filter (entry_descriptor x_world ''/x'')
          [''jpeg.codec.info'', ''jpeg.codec.info.bak'']"
      by (simp add: found_entries_no_failure[OF m] del: found_entries.simps)
    then show ?thesis
      by (simp add: entry_descriptor_def x_world_def separator_def
          derived_module_path_def LIB_SUFFIX_def Let_def)
  qed
  have u: "found_path x_world (Some ''/u'') k = (SAIL_OK, [], k)" for k
    by (simp add: found_path_def x_world_def)
  from init_context_cases[OF fresh _ _ our, of 0] run obtain ds k where
    reg: "registry s1 0 ds" and
    fp: "found_paths x_world [Some ''/x'', Some ''/u''] k = (SAIL_OK, ds, allocs s1)"
    unfolding their by auto
  obtain e1 ds1 k1 where p1: "found_path x_world (Some ''/x'') k = (e1, ds1, k1)"
    by (cases "found_path x_world (Some ''/x'') k") auto
  from fp p1 u[of k1] have "ds = ds1"
    by (auto split: if_splits prod.splits)
  with p[of k] p1 have "ds = [jpeg_info\<lparr>path := ''/x/jpeg.so''\<rparr>, jpeg_info\<lparr>path := ''/x/jpeg.so''\<rparr>]"
    by simp
  with reg run show "registry (snd (the (init_context x_world (Some 0) 0 (fresh_state user_env)))) 0
     [jpeg_info\<lparr>path := ''/x/jpeg.so''\<rparr>, jpeg_info\<lparr>path := ''/x/jpeg.so''\<rparr>]"
    by simp
  show "readdir x_world ''/x'' = Some [''jpeg.codec.info'', ''jpeg.codec.info.bak'']"
    by (simp add: x_world_def)
  show "List.map_filter (spec_entry_descriptor x_world ''/x'')
       [''jpeg.codec.info'', ''jpeg.codec.info.bak''] =
     [jpeg_info\<lparr>path := ''/x/jpeg.so''\<rparr>]"
    by (simp add: spec_entry_descriptor_def spec_module_path_def suffix_to_prefix
        x_world_def separator_def LIB_SUFFIX_def Let_def)
qed

text \<open>
  C5. A codecs directory that cannot be listed. Compiled without \<^verbatim>\<open>SAIL_WIN32\<close>, the code
  logs the failure of \<^verbatim>\<open>opendir\<close> and goes on, and initialization returns \<open>SAIL_OK\<close>;
  compiled with it, the same installation makes \<^verbatim>\<open>init_context\<close> return
  \<open>SAIL_ERROR_LIST_DIR\<close> from inside the loop over the search paths.
\<close>

theorem C5_win32_unlistable_directory:
  "map_option fst (init_context (unlistable Win32) (Some 0) 0 (fresh_state (\<lambda>n. None))) =
     Some SAIL_ERROR_LIST_DIR \<and>
   map_option fst (init_context (unlistable Unix) (Some 0) 0 (fresh_state (\<lambda>n. None))) =
     Some SAIL_OK"
  by (simp add: eval_defs unlistable_def fresh_state_def)

text \<open>
  C6. Order preservation. On a newly allocated context whose first codecs path is
  resolved, \<^verbatim>\<open>init_context\<close> returns, and the chain of the context is then a
  null-terminated chain of pairwise different nodes (\<open>registry\<close>). When the status is
  \<open>SAIL_OK\<close>, the chain holds the descriptors found in the first codecs path followed by
  those found in the user's codecs path, each in the order of the directory's
  enumeration (\<open>found_path\<close>, \<open>found_entries_append\<close>).
\<close>

theorem C6_order_preservation:
  assumes "contexts s c = Some \<lparr>initialized = False, codec_info_node = None\<rparr>"
    and "our_codecs_path w s = Some our"
  shows "\<exists>e s' ds.
           init_context w (Some c) flags s = Some (e, s') \<and> registry s' c ds \<and>
           (e = SAIL_OK \<longrightarrow>
              (\<exists>k ds1 k1 ds2 k2.
                 allocs s \<le> k \<and>
                 found_path w (Some our) k = (SAIL_OK, ds1, k1) \<and>
                 found_path w (their_codecs_path w s) k1 = (SAIL_OK, ds2, k2) \<and>
                 ds = ds1 @ ds2))"
proof -
  from init_context_cases[OF assms(1) _ _ assms(2), of flags] obtain e s' ds k where
    run: "init_context w (Some c) flags s = Some (e, s')" and reg: "registry s' c ds"
    and k: "allocs s \<le> k"
    and fp: "e = SAIL_OK \<longrightarrow>
               found_paths w [Some our, their_codecs_path w s] k = (SAIL_OK, ds, allocs s')"
    by auto
  obtain e1 ds1 k1 where p1: "found_path w (Some our) k = (e1, ds1, k1)"
    by (cases "found_path w (Some our) k") auto
  obtain e2 ds2 k2 where p2: "found_path w (their_codecs_path w s) k1 = (e2, ds2, k2)"
    by (cases "found_path w (their_codecs_path w s) k1") auto
  have "e1 = SAIL_OK \<and> e2 = SAIL_OK \<and> ds = ds1 @ ds2" if "e = SAIL_OK"
  proof -
    from fp that have f: "found_paths w [Some our, their_codecs_path w s] k = (SAIL_OK, ds, allocs s')"
      by simp
    have e1: "e1 = SAIL_OK" using f p1 by (auto split: if_splits prod.splits)
    then show ?thesis using f p1 p2 by (auto split: if_splits prod.splits)
  qed
  with run reg k p1 p2 show ?thesis by (intro exI[of _ e] exI[of _ s'] exI[of _ ds]) auto
qed

text \<open>An instance of C6 on a concrete installation.\<close>

theorem C6_order_preservation_witness:
  "registry (snd (the (init_context unix_world (Some 0) 1 (fresh_state user_env)))) 0
     [jpeg_info\<lparr>path := ''/p/jpeg.so''\<rparr>, png_info\<lparr>path := ''/p/png.so''\<rparr>,
      my_info\<lparr>path := ''/u/my.so''\<rparr>]"
proof -
  from unix_init_ok obtain s1 where
    run: "init_context unix_world (Some 0) 1 (fresh_state user_env) = Some (SAIL_OK, s1)" by blast
  have fresh: "contexts (fresh_state user_env) 0 = Some \<lparr>initialized = False, codec_info_node = None\<rparr>"
    by (simp add: fresh_state_def)
  have our: "our_codecs_path unix_world (fresh_state user_env) = Some ''/p''"
    by (simp add: our_codecs_path_def sail_codecs_path_def unix_world_def fresh_state_def user_env_def)
  have their: "their_codecs_path unix_world (fresh_state user_env) = Some ''/u''"
    by (simp add: their_codecs_path_def client_codecs_path_def fresh_state_def user_env_def Let_def)
  have m: "\<And>k. malloc_ok unix_world k" by (simp add: unix_world_def)
  have p: "fst (snd (found_path unix_world (Some ''/p'') k)) =
      [jpeg_info\<lparr>path := ''/p/jpeg.so''\<rparr>, png_info\<lparr>path := ''/p/png.so''\<rparr>]" for k
  proof -
    have "found_path unix_world (Some ''/p'') k = (SAIL_OK, found_entries unix_world ''/p''
       [''.'', ''..'', ''jpeg.codec.info'', ''README'', ''broken.codec.info'', ''png.codec.info''] k)"
      by (simp add: found_path_def unix_world_def)
    then have "fst (snd (found_path unix_world (Some ''/p'') k)) =
        List.map_filter (entry_descriptor unix_world ''/p'')
          [''.'', ''..'', ''jpeg.codec.info'', ''README'', ''broken.codec.info'', ''png.codec.info'']"
      by (simp add: found_entries_no_failure[OF m] del: found_entries.simps)
    then show ?thesis
      by (simp add: entry_descriptor_def unix_world_def separator_def
          derived_module_path_def LIB_SUFFIX_def Let_def)
  qed
  have u: "fst (snd (found_path unix_world (Some ''/u'') k)) = [my_info\<lparr>path := ''/u/my.so''\<rparr>]" for k
  proof -
    have "found_path unix_world (Some ''/u'') k =
        (SAIL_OK, found_entries unix_world ''/u'' [''my.codec.info''] k)"
      by (simp add: found_path_def unix_world_def)
    then have "fst (snd (found_path unix_world (Some ''/u'') k)) =
        List.map_filter (entry_descriptor unix_world ''/u'') [''my.codec.info'']"
      by (simp add: found_entries_no_failure[OF m] del: found_entries.simps)
    then show ?thesis
      by (simp add: entry_descriptor_def unix_world_def separator_def
          derived_module_path_def LIB_SUFFIX_def Let_def)
  qed
  from C6_order_preservation[OF fresh our, of 1] run obtain ds k ds1 k1 ds2 k2 where
    "registry s1 0 ds"
    "found_path unix_world (Some ''/p'') k = (SAIL_OK, ds1, k1)"
    "found_path unix_world (Some ''/u'') k1 = (SAIL_OK, ds2, k2)"
    "ds = ds1 @ ds2"
    unfolding their by auto
  with p[of k] u[of k1] run show ?thesis by simp
qed


subsection \<open>Destroying the context\<close>

text \<open>
  C8. Destroying the thread-local context. In a state whose thread-local context, if
  there is one, has a well-formed chain, the destroy action returns \<open>SAIL_OK\<close> and
  clears the thread-local pointer: a fetch after it yields the null pointer, and a
  second destroy returns \<open>SAIL_OK\<close> and changes nothing. Without a thread-local
  context the destroy action changes nothing at all.
\<close>

theorem C8_destroy_clears_singleton:
  assumes "case tls_context s of None \<Rightarrow> True | Some c \<Rightarrow> (\<exists>ds. registry s c ds)"
  shows "\<exists>s1. control_tls_context w x SAIL_CONTEXT_DESTROY s = Some (SAIL_OK, x, s1) \<and>
              tls_context s1 = None \<and>
              (tls_context s = None \<longrightarrow> s1 = s) \<and>
              control_tls_context w y SAIL_CONTEXT_FETCH s1 = Some (SAIL_OK, None, s1) \<and>
              control_tls_context w z SAIL_CONTEXT_DESTROY s1 = Some (SAIL_OK, z, s1)"
proof -
  have after: "control_tls_context w y SAIL_CONTEXT_FETCH t = Some (SAIL_OK, None, t) \<and>
      control_tls_context w z SAIL_CONTEXT_DESTROY t = Some (SAIL_OK, z, t)"
    if "tls_context t = None" for t
    using that by (simp add: control_tls_context_def destroy_context_def)
  show ?thesis
  proof (cases "tls_context s")
    case None
    then have "control_tls_context w x SAIL_CONTEXT_DESTROY s = Some (SAIL_OK, x, s)"
      by (simp add: control_tls_context_def destroy_context_def)
    with None after[OF None] show ?thesis by simp
  next
    case (Some c)
    with assms obtain ctx as where ctx: "contexts s c = Some ctx"
      and ch: "chain (nodes s) (codec_info_node ctx) as"
      by (auto simp: registry_def)
    from destroy_chain_total[OF ch] obtain t where
      t: "destroy_codec_info_node_chain (codec_info_node ctx) s = Some t" by blast
    define s1 where "s1 = t\<lparr>contexts := (contexts t)(c := None), tls_context := None\<rparr>"
    have "control_tls_context w x SAIL_CONTEXT_DESTROY s = Some (SAIL_OK, x, s1)"
      using Some ctx t by (simp add: control_tls_context_def destroy_context_def s1_def)
    moreover have "tls_context s1 = None" by (simp add: s1_def)
    ultimately show ?thesis using after[of s1] Some by simp
  qed
qed

text \<open>An instance of C8 on a concrete installation.\<close>

theorem C8_destroy_clears_singleton_witness:
  "\<exists>s1. control_tls_context unix_world None SAIL_CONTEXT_DESTROY two_codecs_state =
          Some (SAIL_OK, None, s1) \<and>
        tls_context s1 = None \<and>
        control_tls_context unix_world (Some 0) SAIL_CONTEXT_FETCH s1 = Some (SAIL_OK, None, s1) \<and>
        control_tls_context unix_world None SAIL_CONTEXT_DESTROY s1 = Some (SAIL_OK, None, s1)"
proof -
  have "case tls_context two_codecs_state of None \<Rightarrow> True
        | Some c \<Rightarrow> (\<exists>ds. registry two_codecs_state c ds)"
    using two_codecs_registry by (auto simp: two_codecs_state_def)
  from C8_destroy_clears_singleton[OF this, of unix_world None "Some 0" None]
  show ?thesis by blast
qed

subsection \<open>Compression level validity\<close>

lemma is_valid_finite:
  "is_valid (compression_level lo hi dflt stp) \<longleftrightarrow> lo < hi \<and> lo \<le> dflt \<and> dflt \<le> hi"
  by (simp add: is_valid_def compression_level_def)

lemma is_valid_no_NaN:
  assumes "is_valid d"
  shows "level_min d \<noteq> NaN \<and> level_max d \<noteq> NaN \<and> level_default d \<noteq> NaN"
proof -
  have "level_min d \<noteq> NaN"
    using assms by (cases "level_min d") (simp_all add: is_valid_def)
  moreover have "level_max d \<noteq> NaN"
    using assms by (cases "level_min d"; cases "level_max d") (simp_all add: is_valid_def)
  moreover have "level_default d \<noteq> NaN"
    using assms by (cases "level_min d"; cases "level_default d") (simp_all add: is_valid_def)
  ultimately show ?thesis by simp
qed

text \<open>
  C7. \<^verbatim>\<open>is_valid\<close> is true exactly when \<^verbatim>\<open>level_min < level_max\<close> and
  \<^verbatim>\<open>level_min <= level_default <= level_max\<close>: for the levels as doubles under the
  IEEE comparisons, and so for all finite levels under the order of the numbers they denote.
  The range (1, 9, 6, 1) is valid; (5, 5, 5, 1) and (0, 10, 15, 1) are not; and
  \<^verbatim>\<open>level_step\<close> has no influence on the answer.
\<close>

theorem C7_is_valid_iff:
  "(is_valid d \<longleftrightarrow>
      double_less (level_min d) (level_max d) \<and>
      double_less_eq (level_min d) (level_default d) \<and>
      double_less_eq (level_default d) (level_max d)) \<and>
   (is_valid (compression_level lo hi dflt stp) \<longleftrightarrow> lo < hi \<and> lo \<le> dflt \<and> dflt \<le> hi) \<and>
   is_valid (compression_level 1 9 6 1) \<and>
   \<not> is_valid (compression_level 5 5 5 1) \<and>
   \<not> is_valid (compression_level 0 10 15 1) \<and>
   is_valid (d\<lparr>level_step := s\<rparr>) = is_valid d"
proof -
  have a: "is_valid d \<longleftrightarrow>
      double_less (level_min d) (level_max d) \<and>
      double_less_eq (level_min d) (level_default d) \<and>
      double_less_eq (level_default d) (level_max d)"
    by (simp add: is_valid_def)
  have b: "is_valid (compression_level 1 9 6 1)"
    by (simp add: is_valid_finite)
  have c: "\<not> is_valid (compression_level 5 5 5 1)"
    by (simp add: is_valid_finite)
  have d: "\<not> is_valid (compression_level 0 10 15 1)"
    by (simp add: is_valid_finite)
  have e: "is_valid (d\<lparr>level_step := s\<rparr>) = is_valid d"
    by (simp add: is_valid_def)
  from a b c d e is_valid_finite show ?thesis by blast
qed

end
